theory Spec2Isabelle
  imports Main "HOL-Library.Sublist"
begin

section \<open>Strings\<close>

text \<open>
  A Python \<open>str\<close> is a sequence of code points. The titles and URLs are modelled as
  \<^typ>\<open>string\<close>, one \<^typ>\<open>char\<close> per code point, which covers the code points
  below 256 (ASCII and Latin-1); \<^const>\<open>length\<close> then counts what Python's \<open>len\<close>
  and slicing count. The character classes below are Python's on that range.
\<close>

definition is_space :: "char \<Rightarrow> bool" where
  \<comment> \<open>the class \<open>\s\<close> of \<open>re\<close> on \<open>str\<close> patterns, which is also what \<open>str.strip()\<close> removes\<close>
  "is_space c =
     (let n = (of_char c :: nat)
      in (9 \<le> n \<and> n \<le> 13) \<or> (28 \<le> n \<and> n \<le> 32) \<or> n = 133 \<or> n = 160)"

definition is_hyphen :: "char \<Rightarrow> bool" where
  "is_hyphen c = (c = CHR ''-'')"

definition illegal_char :: "char \<Rightarrow> bool" where
  \<comment> \<open>the class \<open>[<>:"/\\|?*]\<close>\<close>
  "illegal_char c =
     (c \<in> {CHR ''<'', CHR ''>'', CHR '':'', CHR 0x22, CHR ''/'', CHR 0x5C,
            CHR ''|'', CHR ''?'', CHR ''*''})"

definition lower_char :: "char \<Rightarrow> char" where
  \<comment> \<open>\<open>str.lower()\<close> on one code point below 256: A-Z, and the Latin-1 capitals
      U+00C0..U+00DE without the multiplication sign U+00D7, move up by 32\<close>
  "lower_char c =
     (let n = (of_char c :: nat)
      in if (65 \<le> n \<and> n \<le> 90) \<or> (192 \<le> n \<and> n \<le> 222 \<and> n \<noteq> 215)
         then char_of (n + 32) else c)"

definition lower :: "string \<Rightarrow> string" where
  "lower s = map lower_char s"

definition strip :: "(char \<Rightarrow> bool) \<Rightarrow> string \<Rightarrow> string" where
  \<comment> \<open>\<open>s.strip()\<close> with the class \<open>is_space\<close>, \<open>s.strip('-')\<close> with \<open>is_hyphen\<close>\<close>
  "strip p s = rev (dropWhile p (rev (dropWhile p s)))"

function re_sub_runs :: "(char \<Rightarrow> bool) \<Rightarrow> string \<Rightarrow> string \<Rightarrow> string" where
  \<comment> \<open>\<open>re.sub(r'C+', r, s)\<close> for a character class C: every maximal run of characters
      of the class is replaced by \<open>r\<close>\<close>
  "re_sub_runs p r [] = []"
| "re_sub_runs p r (c # cs) =
     (if p c then r @ re_sub_runs p r (dropWhile p cs) else c # re_sub_runs p r cs)"
  by pat_completeness auto
termination
  by (relation "measure (\<lambda>(p, r, s). length s)")
     (auto simp: length_dropWhile_le less_Suc_eq_le)

section \<open>Filename Sanitizer\<close>

definition sanitize_filename :: "string \<Rightarrow> string" where
  "sanitize_filename name0 =
     (let name1 = filter (\<lambda>c. \<not> illegal_char c) name0;
          name2 = re_sub_runs is_space ''-'' (strip is_space name1);
          name3 = re_sub_runs is_hyphen ''-'' name2;
          name4 = strip is_hyphen name3
      in take 100 (lower name4))"



section \<open>Extension resolution\<close>

definition splitext_ext :: "string \<Rightarrow> string" where
  \<comment> \<open>\<open>os.path.splitext(path)[1]\<close> (posixpath): the suffix from the last dot of the last
      path component, unless only dots come before it in that component\<close>
  "splitext_ext path =
     (let base = rev (takeWhile (\<lambda>c. c \<noteq> CHR ''/'') (rev path))
      in if CHR ''.'' \<in> set base then
           (let suffix = CHR ''.'' # rev (takeWhile (\<lambda>c. c \<noteq> CHR ''.'') (rev base));
                root = rev (tl (dropWhile (\<lambda>c. c \<noteq> CHR ''.'') (rev base)))
            in if filter (\<lambda>c. c \<noteq> CHR ''.'') root \<noteq> [] then suffix else [])
         else [])"

definition get_extension :: "(string \<Rightarrow> string) \<Rightarrow> string \<Rightarrow> string" where
  \<comment> \<open>the first argument is \<open>urlparse(url).path\<close> of \<open>urllib.parse\<close>\<close>
  "get_extension urlparse_path url =
     (let path = urlparse_path url;
          ext = lower (splitext_ext path)
      in if ext \<in> set [''.jpg'', ''.jpeg'', ''.png'', ''.gif'', ''.webp'', ''.bmp'']
         then ext else ''.jpg'')"

section \<open>Numbers in file names\<close>

definition digit_char :: "nat \<Rightarrow> char" where
  "digit_char d = char_of (48 + d)"

fun str_nat :: "nat \<Rightarrow> string" where
  \<comment> \<open>Python's \<open>str\<close> (and f-string formatting) of a non-negative integer\<close>
  "str_nat n = (if n < 10 then [digit_char n] else str_nat (n div 10) @ [digit_char (n mod 10)])"

declare str_nat.simps [simp del]

section \<open>Data model\<close>

record game =
  title :: string
  image_url :: string

record failed_entry =
  fail_title :: string
  fail_url :: string

record progress =
  downloaded :: "string list"
  failed :: "failed_entry list"

text \<open>What \<open>progress.json\<close> holds: nothing, a serialised progress record, or text that
  \<open>json.loads\<close> rejects (such as the prefix a failed write leaves behind).\<close>

datatype progress_file = NoFile | Json progress | Malformed

datatype error = JSONDecodeError | OSError string

text \<open>
  The effects of a run, in order. Console output is kept as one event per line that
  the download loop and \<open>download_image\<close> print; the banner and the summary block are
  returned as the run's outcome instead.
\<close>

datatype event =
    Get string             \<comment> \<open>\<open>page.request.get(url)\<close>\<close>
  | WriteImage string      \<comment> \<open>the image file at this path opened for writing\<close>
  | LogHttp string nat     \<comment> \<open>"  Failed to download {url}: HTTP {status}"\<close>
  | LogError string string \<comment> \<open>"  Error downloading {url}: {e}"\<close>
  | Tally nat nat string   \<comment> \<open>"[{i}/{n}] {title[:40]:<40} "\<close>
  | Mark bool              \<comment> \<open>the check mark or the cross\<close>
  | Save progress          \<comment> \<open>\<open>save_progress(progress)\<close> called\<close>
  | Sleep                  \<comment> \<open>\<open>asyncio.sleep(RATE_LIMIT_DELAY)\<close>\<close>
  | DebugDump              \<comment> \<open>\<open>debug_page.html\<close> opened for writing\<close>

record world =
  files :: "string list"           \<comment> \<open>the names that exist under \<open>OUTPUT_DIR\<close>\<close>
  progress_file :: progress_file   \<comment> \<open>\<open>PROGRESS_FILE\<close>\<close>
  trace :: "event list"

definition emit :: "event \<Rightarrow> world \<Rightarrow> world" where
  "emit e w = w\<lparr>trace := trace w @ [e]\<rparr>"

definition now :: "world \<Rightarrow> nat" where
  "now w = length (trace w)"

text \<open>
  What the run cannot decide: the answers of the remote site and of the file system.
  Each is asked at a time (the number of events so far), so that a later attempt on
  the same URL may be answered differently.
\<close>

record response =
  ok :: bool                   \<comment> \<open>\<open>response.ok\<close>\<close>
  status :: nat                \<comment> \<open>\<open>response.status\<close>\<close>
  body :: "string + string"    \<comment> \<open>\<open>response.body()\<close>: \<open>Inl\<close> the exception it raises\<close>

datatype write_result = Written | OpenRaises string | WriteRaises string

record env =
  urlparse_path :: "string \<Rightarrow> string"
  request_get :: "nat \<Rightarrow> string \<Rightarrow> string + response"   \<comment> \<open>\<open>Inl\<close> the exception raised\<close>
  write_image :: "nat \<Rightarrow> string \<Rightarrow> write_result"
  write_progress :: "nat \<Rightarrow> write_result"
  write_debug :: "nat \<Rightarrow> write_result"

section \<open>Progress Store\<close>

definition load_progress :: "world \<Rightarrow> error + progress" where
  "load_progress w =
     (case progress_file w of
        NoFile \<Rightarrow> Inr \<lparr>downloaded = [], failed = []\<rparr>
      | Json p \<Rightarrow> Inr p
      | Malformed \<Rightarrow> Inl JSONDecodeError)"

definition save_progress :: "env \<Rightarrow> progress \<Rightarrow> world \<Rightarrow> error \<times> world + world" where
  \<comment> \<open>opening with mode \<open>'w'\<close> truncates: a write that raises leaves a malformed file\<close>
  "save_progress env p w =
     (let w1 = emit (Save p) w
      in case write_progress env (now w) of
           Written \<Rightarrow> Inr (w1\<lparr>progress_file := Json p\<rparr>)
         | OpenRaises e \<Rightarrow> Inl (OSError e, w1)
         | WriteRaises e \<Rightarrow> Inl (OSError e, w1\<lparr>progress_file := Malformed\<rparr>))"

section \<open>Fetcher\<close>

definition create_file :: "string \<Rightarrow> world \<Rightarrow> world" where
  "create_file filepath w = emit (WriteImage filepath) (w\<lparr>files := List.insert filepath (files w)\<rparr>)"

definition download_image :: "env \<Rightarrow> string \<Rightarrow> string \<Rightarrow> world \<Rightarrow> bool \<times> world" where
  \<comment> \<open>the \<open>try\<close> block with its \<open>except Exception\<close>; the source's parameter \<open>progress\<close> is never
      used and is left out\<close>
  "download_image env url filepath w =
     (let w1 = emit (Get url) w
      in case request_get env (now w) url of
           Inl e \<Rightarrow> (False, emit (LogError url e) w1)
         | Inr response \<Rightarrow>
             if ok response then
               (case body response of
                  Inl e \<Rightarrow> (False, emit (LogError url e) w1)
                | Inr content \<Rightarrow>
                    (case write_image env (now w1) filepath of
                       Written \<Rightarrow> (True, create_file filepath w1)
                     | OpenRaises e \<Rightarrow> (False, emit (LogError url e) w1)
                     | WriteRaises e \<Rightarrow> (False, emit (LogError url e) (create_file filepath w1))))
             else (False, emit (LogHttp url (status response)) w1))"

section \<open>Extractor: deduplication by image URL\<close>

fun unique_loop :: "game list \<Rightarrow> string set \<Rightarrow> game list \<Rightarrow> game list" where
  "unique_loop [] seen_urls unique_games = unique_games"
| "unique_loop (game # games) seen_urls unique_games =
     (if image_url game \<notin> seen_urls
      then unique_loop games (insert (image_url game) seen_urls) (unique_games @ [game])
      else unique_loop games seen_urls unique_games)"

definition extract_games_from_page :: "game list \<Rightarrow> game list" where
  \<comment> \<open>the argument is the list \<open>games\<close> that the scan of the page's images has built\<close>
  "extract_games_from_page games = unique_loop games {} []"

text \<open>The spec's reading of the deduplication: an item stays when no earlier item of the
  list has its URL.\<close>

definition first_occurrences :: "game list \<Rightarrow> game list" where
  "first_occurrences games =
     map (\<lambda>i. games ! i)
       (filter (\<lambda>i. image_url (games ! i) \<notin> image_url ` set (take i games)) [0..<length games])"

section \<open>Download Pipeline\<close>

function duplicate_loop :: "string list \<Rightarrow> string \<Rightarrow> string \<Rightarrow> nat \<Rightarrow> string \<Rightarrow> string" where
  \<comment> \<open>\<open>while filepath.exists(): filepath = f"{safe_name}-{counter}{ext}"; counter += 1\<close>\<close>
  "duplicate_loop fs safe_name ext counter filepath =
     (if filepath \<in> set fs
      then duplicate_loop fs safe_name ext (counter + 1) (safe_name @ ''-'' @ str_nat counter @ ext)
      else filepath)"
  by pat_completeness auto

text \<open>The loop ends: the numbered names are pairwise different, and only finitely many
  of them exist.\<close>

definition digits_value :: "string \<Rightarrow> nat" where
  "digits_value s = foldl (\<lambda>a c. 10 * a + (of_char c - 48)) 0 s"

lemma digit_char_value: "d < 10 \<Longrightarrow> (of_char (digit_char d) :: nat) - 48 = d"
  by (simp add: digit_char_def)

lemma digits_value_str_nat: "digits_value (str_nat n) = n"
proof (induction n rule: str_nat.induct)
  case (1 n)
  show ?case
  proof (cases "n < 10")
    case True
    then show ?thesis
      by (subst str_nat.simps) (simp add: digits_value_def digit_char_value)
  next
    case False
    have "digits_value (str_nat n) = 10 * digits_value (str_nat (n div 10)) + n mod 10"
      using False by (subst str_nat.simps) (simp add: digits_value_def digit_char_value)
    also have "\<dots> = n" using 1 False by simp
    finally show ?thesis .
  qed
qed

lemma str_nat_inj: "str_nat m = str_nat n \<Longrightarrow> m = n"
  by (metis digits_value_str_nat)

definition numbered :: "string \<Rightarrow> string \<Rightarrow> nat \<Rightarrow> string" where
  "numbered safe_name ext k = safe_name @ ''-'' @ str_nat k @ ext"

lemma inj_numbered: "inj (numbered safe_name ext)"
  by (auto simp: inj_on_def numbered_def dest: str_nat_inj)

lemma finite_taken: "finite {k. numbered safe_name ext k \<in> set fs}"
proof -
  have "finite (numbered safe_name ext -` set fs)"
    by (rule finite_vimageI) (simp_all add: inj_numbered)
  then show ?thesis by (simp add: vimage_def)
qed

definition taken_from :: "string list \<Rightarrow> string \<Rightarrow> string \<Rightarrow> nat \<Rightarrow> nat set" where
  "taken_from fs safe_name ext c = {k. c \<le> k \<and> numbered safe_name ext k \<in> set fs}"

lemma finite_taken_from: "finite (taken_from fs safe_name ext c)"
  unfolding taken_from_def using finite_taken [of safe_name ext fs] by simp

lemma taken_from_step:
  "card (taken_from fs safe_name ext (Suc c)) + (if numbered safe_name ext c \<in> set fs then 1 else 0)
     = card (taken_from fs safe_name ext c)"
proof (cases "numbered safe_name ext c \<in> set fs")
  case True
  have "taken_from fs safe_name ext c = insert c (taken_from fs safe_name ext (Suc c))"
    using True by (auto simp: taken_from_def le_Suc_eq Suc_le_eq) 
  moreover have "c \<notin> taken_from fs safe_name ext (Suc c)"
    by (simp add: taken_from_def)
  ultimately show ?thesis using True
    by (simp add: finite_taken_from)
next
  case False
  have "taken_from fs safe_name ext c = taken_from fs safe_name ext (Suc c)"
    using False by (auto simp: taken_from_def Suc_le_eq le_less)
  then show ?thesis using False by simp
qed

termination duplicate_loop
proof (relation "measure (\<lambda>(fs, safe_name, ext, counter, filepath).
          card (taken_from fs safe_name ext counter) + (if filepath \<in> set fs then 1 else 0))")
  show "wf (measure (\<lambda>(fs, safe_name, ext, counter, filepath).
          card (taken_from fs safe_name ext counter) + (if filepath \<in> set fs then 1 else 0)))"
    by simp
next
  fix fs :: "string list" and safe_name ext :: string and counter :: nat and filepath :: string
  assume "filepath \<in> set fs"
  then show "((fs, safe_name, ext, counter + 1, safe_name @ ''-'' @ str_nat counter @ ext),
              (fs, safe_name, ext, counter, filepath))
             \<in> measure (\<lambda>(fs, safe_name, ext, counter, filepath).
                  card (taken_from fs safe_name ext counter) + (if filepath \<in> set fs then 1 else 0))"
    using taken_from_step [of fs safe_name ext counter]
    by (simp add: numbered_def)
qed

declare duplicate_loop.simps [simp del]

definition prepare_filename :: "env \<Rightarrow> string list \<Rightarrow> string \<Rightarrow> string \<Rightarrow> string" where
  \<comment> \<open>the name under \<open>OUTPUT_DIR\<close> that \<open>main\<close> picks for one game\<close>
  "prepare_filename env fs title0 image_url0 =
     (let safe_name = sanitize_filename title0;
          ext = get_extension (urlparse_path env) image_url0;
          filepath = safe_name @ ext
      in duplicate_loop fs safe_name ext 1 filepath)"

record loop_state =
  downloaded_count :: nat
  skipped_count :: nat
  failed_count :: nat
  progress :: progress

definition ljust :: "nat \<Rightarrow> string \<Rightarrow> string" where
  "ljust n s = s @ replicate (n - length s) CHR '' ''"

definition loop_body ::
  "env \<Rightarrow> string set \<Rightarrow> nat \<Rightarrow> nat \<times> game \<Rightarrow> loop_state \<Rightarrow> world \<Rightarrow> error option \<times> loop_state \<times> world" where
  \<comment> \<open>one iteration of \<open>for i, game in enumerate(all_games, 1)\<close>; \<open>Some e\<close> when \<open>e\<close> is raised\<close>
  "loop_body env downloaded_set n ig st w =
     (let i = fst ig; game = snd ig
      in if image_url game \<in> downloaded_set
         then (None, st\<lparr>skipped_count := skipped_count st + 1\<rparr>, w)
         else
           (let filepath = prepare_filename env (files w) (title game) (image_url game);
                w1 = emit (Tally i n (ljust 40 (take 40 (title game)))) w;
                (success, w2) = download_image env (image_url game) filepath w1;
                st1 = (if success
                       then st\<lparr>downloaded_count := downloaded_count st + 1,
                               progress := (progress st)\<lparr>downloaded := downloaded (progress st) @ [image_url game]\<rparr>\<rparr>
                       else st\<lparr>failed_count := failed_count st + 1,
                               progress := (progress st)\<lparr>failed := failed (progress st) @
                                 [\<lparr>fail_title = title game, fail_url = image_url game\<rparr>]\<rparr>\<rparr>);
                w3 = emit (Mark success) w2
            in if (downloaded_count st1 + failed_count st1) mod 10 = 0
               then (case save_progress env (progress st1) w3 of
                       Inl (e, w4) \<Rightarrow> (Some e, st1, w4)
                     | Inr w4 \<Rightarrow> (None, st1, emit Sleep w4))
               else (None, st1, emit Sleep w3)))"

fun download_loop ::
  "env \<Rightarrow> string set \<Rightarrow> nat \<Rightarrow> (nat \<times> game) list \<Rightarrow> loop_state \<Rightarrow> world \<Rightarrow> error option \<times> loop_state \<times> world" where
  "download_loop env downloaded_set n [] st w = (None, st, w)"
| "download_loop env downloaded_set n (ig # rest) st w =
     (case loop_body env downloaded_set n ig st w of
        (Some e, st1, w1) \<Rightarrow> (Some e, st1, w1)
      | (None, st1, w1) \<Rightarrow> download_loop env downloaded_set n rest st1 w1)"

record summary =
  n_downloaded :: nat
  n_skipped :: nat
  n_failed :: nat
  n_total :: nat

text \<open>
  \<open>main\<close> is modelled from the loading of the progress record on, with the browser
  session taken as given: launching, navigating, waiting and scrolling produce the page,
  and the scan of its images produces the list \<open>games\<close>. \<open>OUTPUT_DIR.mkdir(exist_ok=True)\<close>
  leaves the listing \<open>files\<close> as it is.
\<close>

text \<open>How \<open>main\<close> ends: the early \<open>return\<close> when no game was found (\<open>Returned None\<close>), the
  end of the function after the summary block, or an exception that leaves it.\<close>

datatype outcome = Returned "summary option" | Raised error

definition main :: "env \<Rightarrow> game list \<Rightarrow> world \<Rightarrow> outcome \<times> world" where
  \<comment> \<open>the second argument is the list \<open>games\<close> that the scan of the rendered page has built\<close>
  "main env games w =
     (case load_progress w of
        Inl e \<Rightarrow> (Raised e, w)
      | Inr progress0 \<Rightarrow>
          (let downloaded_set = set (downloaded progress0);
               all_games = extract_games_from_page games
           in if all_games = [] then
                (case write_debug env (now w) of
                   Written \<Rightarrow> (Returned None, emit DebugDump w)
                 | OpenRaises e \<Rightarrow> (Raised (OSError e), w)
                 | WriteRaises e \<Rightarrow> (Raised (OSError e), emit DebugDump w))
              else
                (case download_loop env downloaded_set (length all_games) (enumerate 1 all_games)
                        \<lparr>downloaded_count = 0, skipped_count = 0, failed_count = 0, progress = progress0\<rparr> w of
                   (Some e, st, w1) \<Rightarrow> (Raised e, w1)
                 | (None, st, w1) \<Rightarrow>
                     (case save_progress env (progress st) w1 of
                        Inl (e, w2) \<Rightarrow> (Raised e, w2)
                      | Inr w2 \<Rightarrow>
                          (Returned (Some \<lparr>n_downloaded = downloaded_count st, n_skipped = skipped_count st,
                                           n_failed = failed_count st, n_total = length all_games\<rparr>), w2)))))"

section \<open>Reading a trace\<close>

definition fetched :: "event list \<Rightarrow> string list" where
  \<comment> \<open>the URLs requested, in order\<close>
  "fetched tr = concat (map (\<lambda>e. case e of Get u \<Rightarrow> [u] | _ \<Rightarrow> []) tr)"

definition saves :: "event list \<Rightarrow> progress list" where
  \<comment> \<open>the records handed to \<open>save_progress\<close>, in order\<close>
  "saves tr = concat (map (\<lambda>e. case e of Save p \<Rightarrow> [p] | _ \<Rightarrow> []) tr)"

definition marks :: "event list \<Rightarrow> bool list" where
  \<comment> \<open>the success marks printed, in order\<close>
  "marks tr = concat (map (\<lambda>e. case e of Mark b \<Rightarrow> [b] | _ \<Rightarrow> []) tr)"

definition sleeps :: "event list \<Rightarrow> nat" where
  \<comment> \<open>how many rate-limit delays were spent\<close>
  "sleeps tr = length (filter (\<lambda>e. e = Sleep) tr)"

definition log_lines :: "event list \<Rightarrow> event list" where
  \<comment> \<open>the failure lines that \<open>download_image\<close> prints\<close>
  "log_lines tr = filter (\<lambda>e. case e of LogHttp u c \<Rightarrow> True | LogError u m \<Rightarrow> True | _ \<Rightarrow> False) tr"

definition attempts :: "loop_state \<Rightarrow> nat" where
  \<comment> \<open>the resolved attempts of the run so far: \<open>downloaded_count + failed_count\<close>\<close>
  "attempts st = downloaded_count st + failed_count st"

definition resolved :: "progress \<Rightarrow> nat" where
  \<comment> \<open>the number of outcomes a progress record holds\<close>
  "resolved p = length (downloaded p) + length (failed p)"

definition grows :: "progress \<Rightarrow> progress \<Rightarrow> bool" where
  \<comment> \<open>the second record holds every entry of the first, in place, and maybe more after them\<close>
  "grows p q = (prefix (downloaded p) (downloaded q) \<and> prefix (failed p) (failed q))"

definition fetch_succeeds :: "env \<Rightarrow> nat \<Rightarrow> string \<Rightarrow> string \<Rightarrow> bool" where
  \<comment> \<open>at time \<open>t\<close> the request for \<open>url\<close> comes back with \<open>ok\<close>, its body can be read, and the
      file at \<open>filepath\<close> can be written\<close>
  "fetch_succeeds env t url0 filepath =
     (case request_get env t url0 of
        Inl e \<Rightarrow> False
      | Inr response \<Rightarrow>
          ok response \<and>
          (case body response of
             Inl e \<Rightarrow> False
           | Inr content \<Rightarrow> write_image env (Suc t) filepath = Written))"

definition initial_state :: "progress \<Rightarrow> loop_state" where
  "initial_state progress0 =
     \<lparr>downloaded_count = 0, skipped_count = 0, failed_count = 0, progress = progress0\<rparr>"

definition record_outcome :: "bool \<Rightarrow> game \<Rightarrow> loop_state \<Rightarrow> loop_state" where
  \<comment> \<open>what the loop records after an attempt: the branches of \<open>if success\<close>\<close>
  "record_outcome b g st =
     (if b
      then st\<lparr>downloaded_count := downloaded_count st + 1,
              progress := (progress st)\<lparr>downloaded := downloaded (progress st) @ [image_url g]\<rparr>\<rparr>
      else st\<lparr>failed_count := failed_count st + 1,
              progress := (progress st)\<lparr>failed := failed (progress st) @
                [\<lparr>fail_title = title g, fail_url = image_url g\<rparr>]\<rparr>\<rparr>)"

definition run_loop :: "env \<Rightarrow> game list \<Rightarrow> progress \<Rightarrow> world \<Rightarrow> error option \<times> loop_state \<times> world" where
  \<comment> \<open>the download loop as \<open>main\<close> runs it, from the loaded progress record\<close>
  "run_loop env games progress0 w =
     download_loop env (set (downloaded progress0)) (length (extract_games_from_page games))
       (enumerate 1 (extract_games_from_page games)) (initial_state progress0) w"

section \<open>A test double for the environment\<close>

text \<open>Concrete sites, disks and inputs, on which the theorems below are instantiated.\<close>

definition url_path :: "string \<Rightarrow> string" where
  \<comment> \<open>\<open>urlparse(url).path\<close> for a URL of the shape \<open>scheme://host/path?query#fragment\<close>, and
      for a bare path without a colon\<close>
  "url_path u =
     (let after_colon = drop 1 (dropWhile (\<lambda>c. c \<noteq> CHR '':'') u);
          after_host = (if CHR '':'' \<in> set u
                        then dropWhile (\<lambda>c. c \<noteq> CHR ''/'') (drop 2 after_colon) else u)
      in takeWhile (\<lambda>c. c \<noteq> CHR ''?'' \<and> c \<noteq> CHR ''#'') after_host)"

definition fake_env :: "(string \<Rightarrow> string + response) \<Rightarrow> env" where
  \<comment> \<open>a site that answers every request by its URL alone, and a disk that takes every write\<close>
  "fake_env site =
     \<lparr>urlparse_path = url_path,
      request_get = (\<lambda>t. site),
      write_image = (\<lambda>t p. Written),
      write_progress = (\<lambda>t. Written),
      write_debug = (\<lambda>t. Written)\<rparr>"

definition all_ok :: "string \<Rightarrow> string + response" where
  "all_ok u = Inr \<lparr>ok = True, status = 200, body = Inr ''image''\<rparr>"

definition fresh_world :: world where
  "fresh_world = \<lparr>files = [], progress_file = NoFile, trace = []\<rparr>"

definition dedup_example :: "game list" where
  "dedup_example =
     [\<lparr>title = ''A'', image_url = ''u1''\<rparr>, \<lparr>title = ''B'', image_url = ''u1''\<rparr>,
      \<lparr>title = ''C'', image_url = ''u2''\<rparr>]"

definition ten_games :: "game list" where
  "ten_games = map (\<lambda>k. \<lparr>title = ''Game '' @ str_nat k,
      image_url = ''https://rec0ded88.com/wp/NES_Covers-2D/'' @ str_nat k @ ''.png''\<rparr>) [0..<10]"

definition disk_full :: env where
  "disk_full = (fake_env all_ok)\<lparr>write_progress := (\<lambda>t. OpenRaises ''disk full'')\<rparr>"

definition not_found :: "string \<Rightarrow> string + response" where
  "not_found u = Inr \<lparr>ok = False, status = 404, body = Inr []\<rparr>"

definition two_games :: "game list" where
  "two_games =
     [\<lparr>title = ''Contra'', image_url = ''https://rec0ded88.com/wp/NES_Covers-2D/Contra-USA.png''\<rparr>,
      \<lparr>title = ''Metroid'', image_url = ''https://rec0ded88.com/wp/NES_Covers-2D/Metroid-USA.png''\<rparr>]"

definition resumed_world :: world where
  \<comment> \<open>an earlier run has downloaded the first of \<open>two_games\<close> and failed on the second\<close>
  "resumed_world =
     \<lparr>files = [''contra.png''],
      progress_file = Json \<lparr>downloaded = [''https://rec0ded88.com/wp/NES_Covers-2D/Contra-USA.png''],
        failed = [\<lparr>fail_title = ''Metroid'',
                   fail_url = ''https://rec0ded88.com/wp/NES_Covers-2D/Metroid-USA.png''\<rparr>]\<rparr>,
      trace = []\<rparr>"

definition nine_done :: "loop_state \<times> world" where
  \<comment> \<open>the state and the world after the first nine of \<open>ten_games\<close>, from a fresh start\<close>
  "nine_done =
     snd (download_loop (fake_env all_ok) {} 10 (enumerate 1 (take 9 ten_games))
            (initial_state \<lparr>downloaded = [], failed = []\<rparr>) fresh_world)"

definition tenth_step :: "error option \<times> loop_state \<times> world" where
  "tenth_step = loop_body (fake_env all_ok) {} 10 (10, ten_games ! 9) (fst nine_done) (snd nine_done)"

definition unreachable :: "string \<Rightarrow> string + response" where
  "unreachable u = Inl ''Timeout 30000ms exceeded''"

section \<open>The sanitizer computes the spec's algorithm\<close>














section \<open>File names\<close>

lemma duplicate_loop_free: "duplicate_loop fs safe_name ext counter filepath \<notin> set fs"
  by (induction fs safe_name ext counter filepath rule: duplicate_loop.induct)
     (subst duplicate_loop.simps, simp)

lemma duplicate_loop_keeps:
  "filepath \<notin> set fs \<Longrightarrow> duplicate_loop fs safe_name ext counter filepath = filepath"
  by (subst duplicate_loop.simps) simp

lemma duplicate_loop_numbered:
  "filepath \<in> set fs \<Longrightarrow>
   \<exists>k\<ge>counter. duplicate_loop fs safe_name ext counter filepath = numbered safe_name ext k
      \<and> (\<forall>j. counter \<le> j \<and> j < k \<longrightarrow> numbered safe_name ext j \<in> set fs)"
proof (induction fs safe_name ext counter filepath rule: duplicate_loop.induct)
  case (1 fs safe_name ext counter filepath)
  let ?next = "safe_name @ ''-'' @ str_nat counter @ ext"
  have step: "duplicate_loop fs safe_name ext counter filepath
            = duplicate_loop fs safe_name ext (counter + 1) ?next"
    using "1.prems" by (subst duplicate_loop.simps) simp
  show ?case
  proof (cases "?next \<in> set fs")
    case False
    then have "duplicate_loop fs safe_name ext counter filepath = numbered safe_name ext counter"
      using step by (simp add: duplicate_loop_keeps numbered_def)
    then show ?thesis by auto
  next
    case True
    from "1.IH" [OF "1.prems" True] obtain k where k: "counter + 1 \<le> k"
      "duplicate_loop fs safe_name ext (counter + 1) ?next = numbered safe_name ext k"
      "\<forall>j. counter + 1 \<le> j \<and> j < k \<longrightarrow> numbered safe_name ext j \<in> set fs"
      by blast
    have "\<forall>j. counter \<le> j \<and> j < k \<longrightarrow> numbered safe_name ext j \<in> set fs"
    proof (intro allI impI)
      fix j assume j: "counter \<le> j \<and> j < k"
      show "numbered safe_name ext j \<in> set fs"
      proof (cases "j = counter")
        case True
        then show ?thesis using \<open>?next \<in> set fs\<close> by (simp add: numbered_def)
      next
        case False
        then show ?thesis using j k(3) by simp
      qed
    qed
    then show ?thesis using k step by (intro exI [of _ k]) simp
  qed
qed

lemma str_nat_1: "str_nat 1 = ''1''"
  by code_simp

lemma str_nat_Suc_0: "str_nat (Suc 0) = ''1''"
  using str_nat_1 by simp

lemma sanitize_mega_man: "sanitize_filename ''Mega Man'' = ''mega-man''" by code_simp
lemma sanitize_mega_man_bangs: "sanitize_filename ''mega   man!!'' = ''mega-man!!''" by code_simp
lemma sanitize_mega_man_spaces: "sanitize_filename ''mega   man'' = ''mega-man''" by code_simp

text \<open>
  Claim C4, as stated, fails: the exclamation mark is not among the stripped characters,
  so \<open>"mega   man!!"\<close> sanitizes to \<open>mega-man!!\<close> and does not collide with
  \<open>"Mega Man"\<close>.
\<close>

theorem collision_counterexample:
  "\<not> (sanitize_filename ''Mega Man'' = ''mega-man'' \<and> sanitize_filename ''mega   man!!'' = ''mega-man'')"
  by code_simp

text \<open>
  Claim C4, amended. \<open>"Mega Man"\<close> sanitizes to \<open>mega-man\<close> and \<open>"mega   man!!"\<close> to
  \<open>mega-man!!\<close>. A title that does sanitize to \<open>mega-man\<close>, such as \<open>"mega   man"\<close>,
  resolves to \<open>mega-man-1\<close> followed by the extension when \<open>mega-man\<close> followed by the
  extension exists on disk and the name with \<open>-1\<close> does not.
\<close>

theorem collision_resolved:
  "sanitize_filename ''Mega Man'' = ''mega-man'' \<and>
   sanitize_filename ''mega   man!!'' = ''mega-man!!'' \<and>
   sanitize_filename ''mega   man'' = ''mega-man'' \<and>
   (sanitize_filename title0 = ''mega-man'' \<and>
    ''mega-man'' @ get_extension (urlparse_path env) image_url0 \<in> set fs \<and>
    ''mega-man-1'' @ get_extension (urlparse_path env) image_url0 \<notin> set fs
    \<longrightarrow> prepare_filename env fs title0 image_url0
          = ''mega-man-1'' @ get_extension (urlparse_path env) image_url0)"
proof -
  have "prepare_filename env fs title0 image_url0
          = ''mega-man-1'' @ get_extension (urlparse_path env) image_url0"
    if t: "sanitize_filename title0 = ''mega-man''"
      and a: "''mega-man'' @ get_extension (urlparse_path env) image_url0 \<in> set fs"
      and b: "''mega-man-1'' @ get_extension (urlparse_path env) image_url0 \<notin> set fs"
  proof -
    let ?ext = "get_extension (urlparse_path env) image_url0"
    have "prepare_filename env fs title0 image_url0
            = duplicate_loop fs ''mega-man'' ?ext 1 (''mega-man'' @ ?ext)"
      by (simp add: prepare_filename_def Let_def t)
    also have "\<dots> = duplicate_loop fs ''mega-man'' ?ext (1 + 1) (''mega-man'' @ ''-'' @ str_nat 1 @ ?ext)"
      using a by (subst duplicate_loop.simps) simp
    also have "\<dots> = ''mega-man'' @ ''-'' @ str_nat 1 @ ?ext"
      using b by (intro duplicate_loop_keeps) (simp add: str_nat_Suc_0)
    finally show ?thesis by (simp add: str_nat_Suc_0)
  qed
  then show ?thesis using sanitize_mega_man sanitize_mega_man_bangs sanitize_mega_man_spaces by blast
qed

theorem collision_resolved_witness:
  "sanitize_filename ''mega   man'' = ''mega-man'' \<and>
   ''mega-man'' @ get_extension (urlparse_path (fake_env all_ok)) ''https://rec0ded88.com/wp/NES_Covers-2D/mm2.png''
      \<in> set [''mega-man.png''] \<and>
   ''mega-man-1'' @ get_extension (urlparse_path (fake_env all_ok)) ''https://rec0ded88.com/wp/NES_Covers-2D/mm2.png''
      \<notin> set [''mega-man.png''] \<and>
   prepare_filename (fake_env all_ok) [''mega-man.png''] ''mega   man''
      ''https://rec0ded88.com/wp/NES_Covers-2D/mm2.png'' = ''mega-man-1.png''"
proof -
  have e: "get_extension (urlparse_path (fake_env all_ok)) ''https://rec0ded88.com/wp/NES_Covers-2D/mm2.png'' = ''.png''"
    by code_simp
  show ?thesis
    using collision_resolved [of "''mega   man''" "fake_env all_ok"
        "''https://rec0ded88.com/wp/NES_Covers-2D/mm2.png''" "[''mega-man.png'']"]
    unfolding e by simp
qed

text \<open>
  Claim C9, as stated, fails: there is no fallback for an empty stem. The title
  \<open>"???"\<close> sanitizes to the empty string and its image is written to \<open>.png\<close>, the bare
  extension.
\<close>

theorem degenerate_stem_counterexample:
  "sanitize_filename ''???'' = [] \<and>
   files (snd (main (fake_env all_ok)
     [\<lparr>title = ''???'', image_url = ''https://rec0ded88.com/wp/NES_Covers-2D/q.png''\<rparr>] fresh_world))
     = [''.png'']"
  by code_simp

text \<open>
  Claim C9, amended. For a work item whose title sanitizes to the empty string the
  file name is the bare extension when no file of that name exists; otherwise it is
  \<open>-k\<close> followed by the extension, for the first \<open>k \<ge> 1\<close> whose name is free. The name
  picked never exists on disk.
\<close>

theorem degenerate_stem_bare_extension:
  "sanitize_filename title0 = [] \<longrightarrow>
     prepare_filename env fs title0 image_url0 \<notin> set fs \<and>
     (get_extension (urlparse_path env) image_url0 \<notin> set fs \<longrightarrow>
        prepare_filename env fs title0 image_url0 = get_extension (urlparse_path env) image_url0) \<and>
     (get_extension (urlparse_path env) image_url0 \<in> set fs \<longrightarrow>
        (\<exists>k\<ge>1. prepare_filename env fs title0 image_url0
                  = ''-'' @ str_nat k @ get_extension (urlparse_path env) image_url0 \<and>
               (\<forall>j. 1 \<le> j \<and> j < k \<longrightarrow>
                  ''-'' @ str_nat j @ get_extension (urlparse_path env) image_url0 \<in> set fs)))"
proof (intro impI)
  assume t: "sanitize_filename title0 = []"
  let ?ext = "get_extension (urlparse_path env) image_url0"
  have p: "prepare_filename env fs title0 image_url0 = duplicate_loop fs [] ?ext 1 ?ext"
    by (simp add: prepare_filename_def Let_def t)
  have 1: "prepare_filename env fs title0 image_url0 \<notin> set fs"
    unfolding p by (rule duplicate_loop_free)
  have 2: "prepare_filename env fs title0 image_url0 = ?ext" if "?ext \<notin> set fs"
    unfolding p using that by (rule duplicate_loop_keeps)
  have 3: "\<exists>k\<ge>1. prepare_filename env fs title0 image_url0 = ''-'' @ str_nat k @ ?ext \<and>
               (\<forall>j. 1 \<le> j \<and> j < k \<longrightarrow> ''-'' @ str_nat j @ ?ext \<in> set fs)"
    if "?ext \<in> set fs"
    unfolding p
    using that duplicate_loop_numbered [where fs = fs and safe_name = "[]" and ext = ?ext
        and counter = 1 and filepath = ?ext]
    by (simp add: numbered_def)
  show "prepare_filename env fs title0 image_url0 \<notin> set fs \<and>
     (?ext \<notin> set fs \<longrightarrow> prepare_filename env fs title0 image_url0 = ?ext) \<and>
     (?ext \<in> set fs \<longrightarrow>
        (\<exists>k\<ge>1. prepare_filename env fs title0 image_url0 = ''-'' @ str_nat k @ ?ext \<and>
               (\<forall>j. 1 \<le> j \<and> j < k \<longrightarrow> ''-'' @ str_nat j @ ?ext \<in> set fs)))"
    using 1 2 3 by blast
qed

theorem degenerate_stem_bare_extension_witness:
  "sanitize_filename ''???'' = [] \<and>
   get_extension (urlparse_path (fake_env all_ok)) ''https://rec0ded88.com/wp/NES_Covers-2D/q.png'' = ''.png'' \<and>
   prepare_filename (fake_env all_ok) [] ''???'' ''https://rec0ded88.com/wp/NES_Covers-2D/q.png'' = ''.png'' \<and>
   prepare_filename (fake_env all_ok) [''.png''] ''???'' ''https://rec0ded88.com/wp/NES_Covers-2D/q.png'' = ''-1.png''"
proof -
  have s: "sanitize_filename ''???'' = []" by code_simp
  have e: "get_extension (urlparse_path (fake_env all_ok)) ''https://rec0ded88.com/wp/NES_Covers-2D/q.png'' = ''.png''"
    by code_simp
  have a: "prepare_filename (fake_env all_ok) [] ''???'' ''https://rec0ded88.com/wp/NES_Covers-2D/q.png'' = ''.png''"
    using degenerate_stem_bare_extension [of "''???''" "fake_env all_ok" "[]"
        "''https://rec0ded88.com/wp/NES_Covers-2D/q.png''"] s e
    by simp
  have b: "prepare_filename (fake_env all_ok) [''.png''] ''???'' ''https://rec0ded88.com/wp/NES_Covers-2D/q.png'' = ''-1.png''"
    by code_simp
  show ?thesis using s e a b by simp
qed

section \<open>Deduplication by URL\<close>

lemma upt_0_Suc_map: "[0..<Suc n] = 0 # map Suc [0..<n]"
  by (simp add: upt_conv_Cons map_Suc_upt del: upt_Suc)

lemma unique_loop_first:
  "unique_loop games seen acc =
     acc @ map (\<lambda>i. games ! i)
            (filter (\<lambda>i. image_url (games ! i) \<notin> seen \<union> image_url ` set (take i games)) [0..<length games])"
proof (induction games arbitrary: seen acc)
  case Nil
  show ?case by simp
next
  case (Cons g gs)
  have f: "filter (\<lambda>i. image_url ((g # gs) ! i) \<notin> seen \<union> image_url ` set (take i (g # gs))) (map Suc [0..<length gs])
         = map Suc (filter (\<lambda>i. image_url (gs ! i) \<notin> insert (image_url g) seen \<union> image_url ` set (take i gs)) [0..<length gs])"
    by (auto simp: filter_map o_def intro: filter_cong)
  show ?case
  proof (cases "image_url g \<in> seen")
    case True
    then have i: "insert (image_url g) seen = seen" by auto
    show ?thesis
      using True by (simp only: length_Cons upt_0_Suc_map filter.simps f i unique_loop.simps Cons.IH)
                    (simp add: o_def)
  next
    case False
    show ?thesis
      using False by (simp only: length_Cons upt_0_Suc_map filter.simps f unique_loop.simps Cons.IH)
                     (simp add: o_def)
  qed
qed

lemma extract_first: "extract_games_from_page games = first_occurrences games"
  by (simp add: extract_games_from_page_def first_occurrences_def unique_loop_first)

lemma unique_loop_urls:
  "set (map image_url (unique_loop games seen acc))
     = set (map image_url acc) \<union> (image_url ` set games - seen)"
  by (induction games arbitrary: seen acc) auto

lemma unique_loop_distinct:
  "distinct (map image_url acc) \<Longrightarrow> set (map image_url acc) \<subseteq> seen
     \<Longrightarrow> distinct (map image_url (unique_loop games seen acc))"
proof (induction games arbitrary: seen acc)
  case Nil
  then show ?case by simp
next
  case (Cons g gs)
  show ?case
  proof (cases "image_url g \<in> seen")
    case True
    then show ?thesis using Cons by simp
  next
    case False
    have "distinct (map image_url (acc @ [g]))"
      using Cons.prems False by auto
    moreover have "set (map image_url (acc @ [g])) \<subseteq> insert (image_url g) seen"
      using Cons.prems by auto
    ultimately have "distinct (map image_url (unique_loop gs (insert (image_url g) seen) (acc @ [g])))"
      by (rule Cons.IH)
    then show ?thesis using False by simp
  qed
qed

lemma extract_distinct: "distinct (map image_url (extract_games_from_page games))"
  by (simp add: extract_games_from_page_def unique_loop_distinct)

lemma extract_urls: "image_url ` set (extract_games_from_page games) = image_url ` set games"
  using unique_loop_urls [of games "{}" "[]"] by (simp add: extract_games_from_page_def)

lemma extract_length: "length (extract_games_from_page games) = card (image_url ` set games)"
proof -
  have "card (set (map image_url (extract_games_from_page games)))
          = length (map image_url (extract_games_from_page games))"
    using extract_distinct by (rule distinct_card)
  then show ?thesis by (simp add: extract_urls)
qed

lemma main_total:
  "main env games w = (Returned (Some s), w') \<Longrightarrow> n_total s = length (extract_games_from_page games)"
  by (auto simp: main_def Let_def
      split: sum.splits if_splits write_result.splits prod.splits option.splits)

lemma dedup_example_result:
  "extract_games_from_page dedup_example =
     [\<lparr>title = ''A'', image_url = ''u1''\<rparr>, \<lparr>title = ''C'', image_url = ''u2''\<rparr>]"
  by (simp add: dedup_example_def extract_games_from_page_def)

text \<open>
  Claim C5. For every input list the deduplication keeps exactly the items whose URL
  no earlier item has, in their order: the URLs of the result are pairwise different
  and are the URLs of the input. The total that a completed run reports is the number
  of distinct URLs. For the list \<open>[("A","u1"), ("B","u1"), ("C","u2")]\<close> the result is
  \<open>("A","u1")\<close> then \<open>("C","u2")\<close>.
\<close>

theorem dedup_by_url:
  "extract_games_from_page games = first_occurrences games \<and>
   distinct (map image_url (extract_games_from_page games)) \<and>
   image_url ` set (extract_games_from_page games) = image_url ` set games \<and>
   length (extract_games_from_page games) = card (image_url ` set games) \<and>
   (main env games w = (Returned (Some s), w') \<longrightarrow> n_total s = card (image_url ` set games)) \<and>
   extract_games_from_page dedup_example =
     [\<lparr>title = ''A'', image_url = ''u1''\<rparr>, \<lparr>title = ''C'', image_url = ''u2''\<rparr>]"
  using extract_first [of games] extract_distinct [of games] extract_urls [of games]
    extract_length [of games] main_total [of env games w s w'] dedup_example_result
  by simp

theorem dedup_by_url_witness:
  "main (fake_env all_ok) dedup_example fresh_world =
     (Returned (Some \<lparr>n_downloaded = 2, n_skipped = 0, n_failed = 0, n_total = 2\<rparr>),
      snd (main (fake_env all_ok) dedup_example fresh_world)) \<and>
   card (image_url ` set dedup_example) = 2"
proof -
  have m: "fst (main (fake_env all_ok) dedup_example fresh_world) =
     Returned (Some \<lparr>n_downloaded = 2, n_skipped = 0, n_failed = 0, n_total = 2\<rparr>)"
    by code_simp
  then have r: "main (fake_env all_ok) dedup_example fresh_world =
     (Returned (Some \<lparr>n_downloaded = 2, n_skipped = 0, n_failed = 0, n_total = 2\<rparr>),
      snd (main (fake_env all_ok) dedup_example fresh_world))"
    by (metis prod.collapse)
  show ?thesis
    using r dedup_by_url [of dedup_example "fake_env all_ok" fresh_world
        "\<lparr>n_downloaded = 2, n_skipped = 0, n_failed = 0, n_total = 2\<rparr>"
        "snd (main (fake_env all_ok) dedup_example fresh_world)"]
    by simp
qed

section \<open>One iteration of the download loop\<close>

lemma fetched_append [simp]: "fetched (a @ b) = fetched a @ fetched b"
  by (simp add: fetched_def)
lemma saves_append [simp]: "saves (a @ b) = saves a @ saves b"
  by (simp add: saves_def)
lemma marks_append [simp]: "marks (a @ b) = marks a @ marks b"
  by (simp add: marks_def)
lemma sleeps_append [simp]: "sleeps (a @ b) = sleeps a + sleeps b"
  by (simp add: sleeps_def)
lemma log_lines_append [simp]: "log_lines (a @ b) = log_lines a @ log_lines b"
  by (simp add: log_lines_def)

lemma fetched_simps [simp]:
  "fetched [] = []"
  "fetched (e # es) = (case e of Get u \<Rightarrow> [u] | _ \<Rightarrow> []) @ fetched es"
  by (simp_all add: fetched_def)

lemma saves_simps [simp]:
  "saves [] = []"
  "saves (e # es) = (case e of Save p \<Rightarrow> [p] | _ \<Rightarrow> []) @ saves es"
  by (simp_all add: saves_def)

lemma marks_simps [simp]:
  "marks [] = []"
  "marks (e # es) = (case e of Mark b \<Rightarrow> [b] | _ \<Rightarrow> []) @ marks es"
  by (simp_all add: marks_def)

lemma sleeps_simps [simp]:
  "sleeps [] = 0"
  "sleeps (e # es) = (if e = Sleep then 1 else 0) + sleeps es"
  by (simp_all add: sleeps_def)

lemma log_lines_simps [simp]:
  "log_lines [] = []"
  "log_lines (e # es) =
     (case e of LogHttp u c \<Rightarrow> [e] | LogError u m \<Rightarrow> [e] | _ \<Rightarrow> []) @ log_lines es"
  by (cases e; simp add: log_lines_def)+

lemma download_image_result:
  assumes "download_image env url0 p w = (b, w')"
  shows "b = fetch_succeeds env (now w) url0 p"
    and "fetched (trace w') = fetched (trace w) @ [url0]"
    and "saves (trace w') = saves (trace w)"
    and "marks (trace w') = marks (trace w)"
    and "sleeps (trace w') = sleeps (trace w)"
    and "length (log_lines (trace w')) = length (log_lines (trace w)) + (if b then 0 else 1)"
    and "progress_file w' = progress_file w"
    and "now w < now w'"
  using assms
  by (auto simp: download_image_def fetch_succeeds_def Let_def emit_def create_file_def now_def
      split: sum.splits if_splits write_result.splits)

lemma save_progress_result:
  "save_progress env p w = Inr w' \<Longrightarrow>
     trace w' = trace w @ [Save p] \<and> progress_file w' = Json p \<and> files w' = files w
     \<and> write_progress env (now w) = Written"
  "save_progress env p w = Inl (e, w') \<Longrightarrow>
     trace w' = trace w @ [Save p] \<and> files w' = files w \<and> write_progress env (now w) \<noteq> Written
     \<and> (progress_file w' = progress_file w \<or> progress_file w' = Malformed)
     \<and> (\<exists>m. e = OSError m)"
  by (auto simp: save_progress_def Let_def emit_def split: write_result.splits)

lemma loop_body_skip:
  "image_url g \<in> ds \<Longrightarrow>
     loop_body env ds n (i, g) st w = (None, st\<lparr>skipped_count := skipped_count st + 1\<rparr>, w)"
  by (simp add: loop_body_def)

lemma loop_body_attempt:
  assumes "image_url g \<notin> ds" and "loop_body env ds n (i, g) st w = (r, st', w')"
  defines "b \<equiv> fetch_succeeds env (Suc (now w)) (image_url g)
                  (prepare_filename env (files w) (title g) (image_url g))"
  shows "st' = record_outcome b g st"
    and "fetched (trace w') = fetched (trace w) @ [image_url g]"
    and "marks (trace w') = marks (trace w) @ [b]"
    and "saves (trace w') = saves (trace w) @ (if attempts st' mod 10 = 0 then [progress st'] else [])"
    and "sleeps (trace w') = sleeps (trace w) + (if r = None then 1 else 0)"
    and "length (log_lines (trace w')) = length (log_lines (trace w)) + (if b then 0 else 1)"
    and "r = None \<or> attempts st' mod 10 = 0"
    and "r = None \<or> (\<exists>m. r = Some (OSError m))"
    and "attempts st' mod 10 \<noteq> 0 \<Longrightarrow> progress_file w' = progress_file w"
    and "attempts st' mod 10 = 0 \<Longrightarrow> r = None \<Longrightarrow> progress_file w' = Json (progress st')"
    and "attempts st' mod 10 = 0 \<Longrightarrow> r \<noteq> None \<Longrightarrow>
           progress_file w' = progress_file w \<or> progress_file w' = Malformed"
proof -
  let ?p = "prepare_filename env (files w) (title g) (image_url g)"
  let ?w1 = "emit (Tally i n (ljust 40 (take 40 (title g)))) w"
  obtain s w2 where d: "download_image env (image_url g) ?p ?w1 = (s, w2)"
    by (cases "download_image env (image_url g) ?p ?w1")
  have n1: "now ?w1 = Suc (now w)" by (simp add: now_def emit_def)
  note di = download_image_result [OF d]
  have sb: "s = b" using di(1) by (simp add: b_def n1)
  have t1: "trace ?w1 = trace w @ [Tally i n (ljust 40 (take 40 (title g)))]"
    "progress_file ?w1 = progress_file w"
    by (simp_all add: emit_def)
  let ?st1 = "record_outcome b g st"
  let ?w3 = "emit (Mark b) w2"
  have body: "loop_body env ds n (i, g) st w =
     (if attempts ?st1 mod 10 = 0
      then (case save_progress env (progress ?st1) ?w3 of
              Inl (e, w4) \<Rightarrow> (Some e, ?st1, w4)
            | Inr w4 \<Rightarrow> (None, ?st1, emit Sleep w4))
      else (None, ?st1, emit Sleep ?w3))"
    using assms(1) d sb
    by (cases b)
       (auto simp: loop_body_def Let_def record_outcome_def attempts_def
          split: sum.splits prod.splits)
  have t3: "trace ?w3 = trace w2 @ [Mark b]" "progress_file ?w3 = progress_file w2"
    by (simp_all add: emit_def)
  show "st' = record_outcome b g st"
    using assms(2) body by (auto split: if_splits sum.splits prod.splits)
  then have st': "st' = ?st1" .
  show "fetched (trace w') = fetched (trace w) @ [image_url g]"
    using assms(2) body di t1 t3
    by (auto simp: emit_def split: if_splits sum.splits prod.splits dest!: save_progress_result)
  show "marks (trace w') = marks (trace w) @ [b]"
    using assms(2) body di t1 t3
    by (auto simp: emit_def split: if_splits sum.splits prod.splits dest!: save_progress_result)
  show "saves (trace w') = saves (trace w) @ (if attempts st' mod 10 = 0 then [progress st'] else [])"
    using assms(2) body di t1 t3
    by (auto simp: emit_def split: if_splits sum.splits prod.splits dest!: save_progress_result)
  show "sleeps (trace w') = sleeps (trace w) + (if r = None then 1 else 0)"
    using assms(2) body di t1 t3
    by (auto simp: emit_def split: if_splits sum.splits prod.splits dest!: save_progress_result)
  show "length (log_lines (trace w')) = length (log_lines (trace w)) + (if b then 0 else 1)"
    using assms(2) body di t1 t3 sb
    by (auto simp: emit_def split: if_splits sum.splits prod.splits dest!: save_progress_result)
  show "r = None \<or> attempts st' mod 10 = 0"
    using assms(2) body by (auto split: if_splits sum.splits prod.splits)
  show "r = None \<or> (\<exists>m. r = Some (OSError m))"
    using assms(2) body by (auto split: if_splits sum.splits prod.splits dest!: save_progress_result)
  show "progress_file w' = progress_file w" if "attempts st' mod 10 \<noteq> 0"
    using that assms(2) body di t1 t3 st'
    by (auto simp: emit_def split: if_splits sum.splits prod.splits)
  show "progress_file w' = Json (progress st')" if "attempts st' mod 10 = 0" "r = None"
    using that assms(2) body di t1 t3 st'
    by (auto simp: emit_def split: if_splits sum.splits prod.splits dest!: save_progress_result)
  show "progress_file w' = progress_file w \<or> progress_file w' = Malformed"
    if "attempts st' mod 10 = 0" "r \<noteq> None"
    using that assms(2) body di t1 t3 st'
    by (auto simp: emit_def split: if_splits sum.splits prod.splits dest!: save_progress_result)
qed

lemma grows_refl [simp]: "grows p p"
  by (simp add: grows_def)

lemma grows_trans: "grows p q \<Longrightarrow> grows q r \<Longrightarrow> grows p r"
  by (auto simp: grows_def)

lemma record_outcome_simps:
  "attempts (record_outcome b g st) = attempts st + 1"
  "skipped_count (record_outcome b g st) = skipped_count st"
  "grows (progress st) (progress (record_outcome b g st))"
  "resolved (progress (record_outcome b g st)) = resolved (progress st) + 1"
  "failed_count st \<le> failed_count (record_outcome b g st)"
  "failed_count (record_outcome b g st) = failed_count st + (if b then 0 else 1)"
  "downloaded_count (record_outcome b g st) = downloaded_count st + (if b then 1 else 0)"
  by (simp_all add: record_outcome_def attempts_def grows_def resolved_def)

lemma record_outcome_no_failure:
  "failed_count (record_outcome b g st) = failed_count st \<Longrightarrow>
     image_url g \<in> set (downloaded (progress (record_outcome b g st)))"
  by (simp add: record_outcome_def split: if_splits)

lemma loop_body_step:
  assumes "loop_body env ds n ig st w = (r, st1, w1)"
  shows "attempts st1 = attempts st + (if image_url (snd ig) \<in> ds then 0 else 1)"
    and "skipped_count st1 = skipped_count st + (if image_url (snd ig) \<in> ds then 1 else 0)"
    and "fetched (trace w1) = fetched (trace w) @ (if image_url (snd ig) \<in> ds then [] else [image_url (snd ig)])"
    and "sleeps (trace w1) = sleeps (trace w) + (if image_url (snd ig) \<in> ds \<or> r \<noteq> None then 0 else 1)"
    and "saves (trace w1) = saves (trace w) @
           (if image_url (snd ig) \<notin> ds \<and> attempts st1 mod 10 = 0 then [progress st1] else [])"
    and "grows (progress st) (progress st1)"
    and "resolved (progress st1) = resolved (progress st) + (if image_url (snd ig) \<in> ds then 0 else 1)"
    and "failed_count st \<le> failed_count st1"
    and "failed_count st1 = failed_count st \<Longrightarrow>
           image_url (snd ig) \<in> ds \<union> set (downloaded (progress st1))"
    and "r = None \<or> (image_url (snd ig) \<notin> ds \<and> attempts st1 mod 10 = 0)"
    and "progress_file w1 = progress_file w \<or> progress_file w1 = Malformed \<or>
           (progress_file w1 = Json (progress st1) \<and> image_url (snd ig) \<notin> ds \<and> attempts st1 mod 10 = 0)"
    and "downloaded_count st1 + skipped_count st1 + failed_count st1
           = downloaded_count st + skipped_count st + failed_count st + 1"
proof -
  obtain i g where ig: "ig = (i, g)" by (cases ig)
  have all: "(attempts st1 = attempts st + (if image_url (snd ig) \<in> ds then 0 else 1)) \<and>
    (skipped_count st1 = skipped_count st + (if image_url (snd ig) \<in> ds then 1 else 0)) \<and>
    (fetched (trace w1) = fetched (trace w) @ (if image_url (snd ig) \<in> ds then [] else [image_url (snd ig)])) \<and>
    (sleeps (trace w1) = sleeps (trace w) + (if image_url (snd ig) \<in> ds \<or> r \<noteq> None then 0 else 1)) \<and>
    (saves (trace w1) = saves (trace w) @
           (if image_url (snd ig) \<notin> ds \<and> attempts st1 mod 10 = 0 then [progress st1] else [])) \<and>
    grows (progress st) (progress st1) \<and>
    (resolved (progress st1) = resolved (progress st) + (if image_url (snd ig) \<in> ds then 0 else 1)) \<and>
    (failed_count st \<le> failed_count st1) \<and>
    (failed_count st1 = failed_count st \<longrightarrow>
           image_url (snd ig) \<in> ds \<union> set (downloaded (progress st1))) \<and>
    (r = None \<or> (image_url (snd ig) \<notin> ds \<and> attempts st1 mod 10 = 0)) \<and>
    (progress_file w1 = progress_file w \<or> progress_file w1 = Malformed \<or>
           (progress_file w1 = Json (progress st1) \<and> image_url (snd ig) \<notin> ds \<and> attempts st1 mod 10 = 0)) \<and>
    (downloaded_count st1 + skipped_count st1 + failed_count st1
           = downloaded_count st + skipped_count st + failed_count st + 1)"
  proof (cases "image_url g \<in> ds")
    case True
    then have "r = None" "st1 = st\<lparr>skipped_count := skipped_count st + 1\<rparr>" "w1 = w"
      using assms loop_body_skip [of g ds env n i st w] by (simp_all add: ig)
    then show ?thesis
      using True by (simp add: ig attempts_def)
  next
    case False
    note la = loop_body_attempt [OF False assms [unfolded ig]]
    have pf: "progress_file w1 = progress_file w \<or> progress_file w1 = Malformed \<or>
           (progress_file w1 = Json (progress st1) \<and> attempts st1 mod 10 = 0)"
      using la(9,10,11) by (cases "attempts st1 mod 10 = 0"; cases "r = None") auto
    have cnt: "downloaded_count st1 + skipped_count st1 + failed_count st1
           = downloaded_count st + skipped_count st + failed_count st + 1"
      unfolding la(1) by (simp add: record_outcome_simps)
    have nf: "failed_count st1 = failed_count st \<longrightarrow>
           image_url g \<in> set (downloaded (progress st1))"
      unfolding la(1) using record_outcome_no_failure by blast
    have a: "attempts st1 = attempts st + 1" "skipped_count st1 = skipped_count st"
      "grows (progress st) (progress st1)" "resolved (progress st1) = resolved (progress st) + 1"
      "failed_count st \<le> failed_count st1"
      unfolding la(1) by (simp_all add: record_outcome_simps)
    show ?thesis
      using False la(2,4,5,7) pf cnt nf a
      by (simp add: ig)
  qed
  show "attempts st1 = attempts st + (if image_url (snd ig) \<in> ds then 0 else 1)"
    and "skipped_count st1 = skipped_count st + (if image_url (snd ig) \<in> ds then 1 else 0)"
    and "fetched (trace w1) = fetched (trace w) @ (if image_url (snd ig) \<in> ds then [] else [image_url (snd ig)])"
    and "sleeps (trace w1) = sleeps (trace w) + (if image_url (snd ig) \<in> ds \<or> r \<noteq> None then 0 else 1)"
    and "saves (trace w1) = saves (trace w) @
           (if image_url (snd ig) \<notin> ds \<and> attempts st1 mod 10 = 0 then [progress st1] else [])"
    and "grows (progress st) (progress st1)"
    and "resolved (progress st1) = resolved (progress st) + (if image_url (snd ig) \<in> ds then 0 else 1)"
    and "failed_count st \<le> failed_count st1"
    and "failed_count st1 = failed_count st \<Longrightarrow>
           image_url (snd ig) \<in> ds \<union> set (downloaded (progress st1))"
    and "r = None \<or> (image_url (snd ig) \<notin> ds \<and> attempts st1 mod 10 = 0)"
    and "progress_file w1 = progress_file w \<or> progress_file w1 = Malformed \<or>
           (progress_file w1 = Json (progress st1) \<and> image_url (snd ig) \<notin> ds \<and> attempts st1 mod 10 = 0)"
    and "downloaded_count st1 + skipped_count st1 + failed_count st1
           = downloaded_count st + skipped_count st + failed_count st + 1"
    using all by blast+
qed

section \<open>The download loop\<close>

lemma download_loop_Cons:
  assumes "download_loop env ds n (ig # rest) st w = (r, st', w')"
  obtains (stop) "r \<noteq> None" "loop_body env ds n ig st w = (r, st', w')"
  | (continue) st1 w1 where "loop_body env ds n ig st w = (None, st1, w1)"
      "download_loop env ds n rest st1 w1 = (r, st', w')"
proof -
  obtain r1 st1 w1 where b: "loop_body env ds n ig st w = (r1, st1, w1)"
    by (cases "loop_body env ds n ig st w")
  show thesis
  proof (cases r1)
    case None
    then show ?thesis using assms b continue by simp
  next
    case (Some e)
    then show ?thesis using assms b stop by auto
  qed
qed

lemma download_loop_counts:
  assumes "download_loop env ds n igs st w = (r, st', w')"
  shows "attempts st' + length (fetched (trace w)) = attempts st + length (fetched (trace w'))
       \<and> attempts st \<le> attempts st'
       \<and> grows (progress st) (progress st')
       \<and> resolved (progress st') + attempts st = resolved (progress st) + attempts st'
       \<and> failed_count st \<le> failed_count st'"
  using assms
proof (induction igs arbitrary: st w)
  case Nil
  then show ?case by simp
next
  case (Cons ig rest)
  from Cons.prems show ?case
  proof (cases rule: download_loop_Cons)
    case stop
    note s = loop_body_step [OF stop(2)]
    show ?thesis using s(1,3,6,7,8) by (simp split: if_splits)
  next
    case (continue st1 w1)
    note s = loop_body_step [OF continue(1)]
    note ih = Cons.IH [OF continue(2)]
    have "grows (progress st) (progress st')"
      using s(6) ih grows_trans by blast
    then show ?thesis using s(1,3,7,8) ih by (simp split: if_splits)
  qed
qed

lemma download_loop_completed:
  assumes "download_loop env ds n igs st w = (None, st', w')"
  shows "fetched (trace w') = fetched (trace w) @ map image_url (filter (\<lambda>g. image_url g \<notin> ds) (map snd igs))
       \<and> skipped_count st' = skipped_count st + length (filter (\<lambda>g. image_url g \<in> ds) (map snd igs))
       \<and> sleeps (trace w') = sleeps (trace w) + length (filter (\<lambda>g. image_url g \<notin> ds) (map snd igs))
       \<and> downloaded_count st' + skipped_count st' + failed_count st'
            = downloaded_count st + skipped_count st + failed_count st + length igs"
  using assms
proof (induction igs arbitrary: st w)
  case Nil
  then show ?case by simp
next
  case (Cons ig rest)
  from Cons.prems show ?case
  proof (cases rule: download_loop_Cons)
    case stop
    then show ?thesis by simp
  next
    case (continue st1 w1)
    note s = loop_body_step [OF continue(1)]
    note ih = Cons.IH [OF continue(2)]
    show ?thesis using s(2,3,4,12) ih by (simp split: if_splits)
  qed
qed

lemma download_loop_no_failure:
  assumes "download_loop env ds n igs st w = (None, st', w')"
    and "failed_count st' = failed_count st"
  shows "image_url ` snd ` set igs \<subseteq> ds \<union> set (downloaded (progress st'))"
  using assms
proof (induction igs arbitrary: st w)
  case Nil
  then show ?case by simp
next
  case (Cons ig rest)
  from Cons.prems(1) show ?case
  proof (cases rule: download_loop_Cons)
    case stop
    then show ?thesis by simp
  next
    case (continue st1 w1)
    note s = loop_body_step [OF continue(1)]
    note c = download_loop_counts [OF continue(2)]
    have f1: "failed_count st1 = failed_count st" and f2: "failed_count st' = failed_count st1"
      using s(8) c Cons.prems(2) by simp_all
    have "image_url (snd ig) \<in> ds \<union> set (downloaded (progress st1))"
      using s(9) f1 by simp
    moreover have "set (downloaded (progress st1)) \<subseteq> set (downloaded (progress st'))"
      using c by (auto simp: grows_def dest: set_mono_prefix)
    ultimately show ?thesis
      using Cons.IH [OF continue(2) f2] by auto
  qed
qed

lemma download_loop_all_skipped:
  "image_url ` snd ` set igs \<subseteq> ds \<Longrightarrow>
     download_loop env ds n igs st w = (None, st\<lparr>skipped_count := skipped_count st + length igs\<rparr>, w)"
proof (induction igs arbitrary: st)
  case Nil
  show ?case by simp
next
  case (Cons ig rest)
  obtain i g where ig: "ig = (i, g)" by (cases ig)
  have "image_url g \<in> ds" using Cons.prems ig by simp
  then have "loop_body env ds n ig st w = (None, st\<lparr>skipped_count := skipped_count st + 1\<rparr>, w)"
    unfolding ig by (rule loop_body_skip)
  moreover have "image_url ` snd ` set rest \<subseteq> ds" using Cons.prems by simp
  ultimately show ?case using Cons.IH by simp
qed

lemma div10_step: "Suc a mod 10 = 0 \<Longrightarrow> Suc a div 10 = Suc (a div 10)"
  by (simp add: div_Suc)

lemma div10_same: "Suc a mod 10 \<noteq> 0 \<Longrightarrow> Suc a div 10 = a div 10"
  by (simp add: div_Suc)

lemma map_add_cancel:
  assumes "map (\<lambda>x. f x + (k::nat)) xs = map (\<lambda>y. g y + k) ys"
  shows "map f xs = map g ys"
  using arg_cong [OF assms, of "map (\<lambda>v. v - k)"] by (simp add: o_def)

lemma upt_chain: "a \<le> b \<Longrightarrow> b \<le> c \<Longrightarrow> [Suc a..<Suc b] @ [Suc b..<Suc c] = [Suc a..<Suc c]"
  by (metis Suc_le_mono le_Suc_ex upt_add_eq_append)

lemma download_loop_saves:
  assumes "download_loop env ds n igs st w = (r, st', w')"
  shows "\<exists>new. saves (trace w') = saves (trace w) @ new
       \<and> sorted_wrt grows new
       \<and> (\<forall>p\<in>set new. grows (progress st) p \<and> grows p (progress st'))
       \<and> map (\<lambda>p. resolved p + attempts st) new
            = map (\<lambda>j. resolved (progress st) + 10 * j) [Suc (attempts st div 10)..<Suc (attempts st' div 10)]
       \<and> (progress_file w' = progress_file w \<or> progress_file w' = Malformed
            \<or> (\<exists>p\<in>set new. progress_file w' = Json p))"
  using assms
proof (induction igs arbitrary: st w)
  case Nil
  then show ?case by simp
next
  case (Cons ig rest)
  have step: "\<exists>new. saves (trace w1) = saves (trace w) @ new
       \<and> sorted_wrt grows new
       \<and> (\<forall>p\<in>set new. grows (progress st) p \<and> grows p (progress st1))
       \<and> map (\<lambda>p. resolved p + attempts st) new
            = map (\<lambda>j. resolved (progress st) + 10 * j) [Suc (attempts st div 10)..<Suc (attempts st1 div 10)]
       \<and> (progress_file w1 = progress_file w \<or> progress_file w1 = Malformed
            \<or> (\<exists>p\<in>set new. progress_file w1 = Json p))"
    if b: "loop_body env ds n ig st w = (r1, st1, w1)" for r1 st1 w1
  proof -
    note s = loop_body_step [OF b]
    show ?thesis
    proof (cases "image_url (snd ig) \<notin> ds \<and> attempts st1 mod 10 = 0")
      case False
      then have "saves (trace w1) = saves (trace w) @ []" using s(5) by auto
      moreover have "attempts st1 div 10 = attempts st div 10"
        using False s(1) by (auto split: if_splits simp: div10_same)
      moreover have "progress_file w1 = progress_file w \<or> progress_file w1 = Malformed"
        using False s(11) by blast
      ultimately show ?thesis by (intro exI [of _ "[]"]) simp
    next
      case True
      then have sv: "saves (trace w1) = saves (trace w) @ [progress st1]" using s(5) by auto
      have a1: "attempts st1 = attempts st + 1" using True s(1) by simp
      have d: "attempts st1 div 10 = Suc (attempts st div 10)"
        using True a1 div10_step [of "attempts st"] by simp
      have m: "10 * (attempts st1 div 10) = attempts st1"
        using True by auto
      have rs: "resolved (progress st1) = resolved (progress st) + 1"
        using True s(7) by simp
      have "map (\<lambda>p. resolved p + attempts st) [progress st1]
            = map (\<lambda>j. resolved (progress st) + 10 * j) [Suc (attempts st div 10)..<Suc (attempts st1 div 10)]"
        using m a1 rs by (simp add: d del: upt_Suc) (simp add: d [symmetric])
      moreover have "progress_file w1 = progress_file w \<or> progress_file w1 = Malformed
            \<or> progress_file w1 = Json (progress st1)"
        using s(11) by blast
      ultimately show ?thesis
        using sv s(6) by (intro exI [of _ "[progress st1]"]) auto
    qed
  qed
  from Cons.prems show ?case
  proof (cases rule: download_loop_Cons)
    case stop
    from step [OF stop(2)] show ?thesis .
  next
    case (continue st1 w1)
    note s = loop_body_step [OF continue(1)]
    note c = download_loop_counts [OF continue(2)]
    from step [OF continue(1)] obtain new1 where n1:
      "saves (trace w1) = saves (trace w) @ new1" "sorted_wrt grows new1"
      "\<forall>p\<in>set new1. grows (progress st) p \<and> grows p (progress st1)"
      "map (\<lambda>p. resolved p + attempts st) new1
         = map (\<lambda>j. resolved (progress st) + 10 * j) [Suc (attempts st div 10)..<Suc (attempts st1 div 10)]"
      "progress_file w1 = progress_file w \<or> progress_file w1 = Malformed
         \<or> (\<exists>p\<in>set new1. progress_file w1 = Json p)"
      by blast
    from Cons.IH [OF continue(2)] obtain new2 where n2:
      "saves (trace w') = saves (trace w1) @ new2" "sorted_wrt grows new2"
      "\<forall>p\<in>set new2. grows (progress st1) p \<and> grows p (progress st')"
      "map (\<lambda>p. resolved p + attempts st1) new2
         = map (\<lambda>j. resolved (progress st1) + 10 * j) [Suc (attempts st1 div 10)..<Suc (attempts st' div 10)]"
      "progress_file w' = progress_file w1 \<or> progress_file w' = Malformed
         \<or> (\<exists>p\<in>set new2. progress_file w' = Json p)"
      by blast
    have le: "attempts st div 10 \<le> attempts st1 div 10" "attempts st1 div 10 \<le> attempts st' div 10"
      using s(1) c by (simp_all add: div_le_mono)
    have shift: "resolved (progress st1) + attempts st = resolved (progress st) + attempts st1"
      using s(1,7) by simp
    have "map (\<lambda>p. resolved p + attempts st + attempts st1) new2
         = map (\<lambda>p. resolved p + attempts st1 + attempts st) new2"
      by (simp add: ac_simps)
    also have "\<dots> = map (\<lambda>x. x + attempts st) (map (\<lambda>p. resolved p + attempts st1) new2)"
      by (simp add: o_def)
    also have "\<dots> = map (\<lambda>j. resolved (progress st1) + 10 * j + attempts st)
                      [Suc (attempts st1 div 10)..<Suc (attempts st' div 10)]"
      unfolding n2(4) by (simp add: o_def del: upt_Suc)
    also have "\<dots> = map (\<lambda>j. resolved (progress st) + 10 * j + attempts st1)
                      [Suc (attempts st1 div 10)..<Suc (attempts st' div 10)]"
      using shift by (intro map_cong) auto
    finally have m2: "map (\<lambda>p. resolved p + attempts st) new2
         = map (\<lambda>j. resolved (progress st) + 10 * j) [Suc (attempts st1 div 10)..<Suc (attempts st' div 10)]"
      by (rule map_add_cancel)
    have 1: "saves (trace w') = saves (trace w) @ (new1 @ new2)"
      using n1(1) n2(1) by simp
    have g1: "grows (progress st) (progress st1)" and g2: "grows (progress st1) (progress st')"
      using s(6) c by simp_all
    have 2: "sorted_wrt grows (new1 @ new2)"
      unfolding sorted_wrt_append using n1(2,3) n2(2,3) grows_trans by blast
    have 3: "\<forall>p\<in>set (new1 @ new2). grows (progress st) p \<and> grows p (progress st')"
      unfolding set_append using n1(3) n2(3) g1 g2 grows_trans by blast
    have 4: "map (\<lambda>p. resolved p + attempts st) (new1 @ new2)
            = map (\<lambda>j. resolved (progress st) + 10 * j) [Suc (attempts st div 10)..<Suc (attempts st' div 10)]"
      unfolding map_append n1(4) m2 upt_chain [OF le, symmetric] ..
    have 5: "progress_file w' = progress_file w \<or> progress_file w' = Malformed
            \<or> (\<exists>p\<in>set (new1 @ new2). progress_file w' = Json p)"
      using n1(5) n2(5) by auto
    show ?thesis using 1 2 3 4 5 by blast
  qed
qed

section \<open>The run as a whole\<close>

lemma main_cases:
  assumes "main env games w = (r, w')"
  obtains (load_error) "load_progress w = Inl JSONDecodeError" "r = Raised JSONDecodeError" "w' = w"
  | (no_games) p0 where "load_progress w = Inr p0" "extract_games_from_page games = []"
      "r = Returned None \<or> (\<exists>m. r = Raised (OSError m))" "w' = w \<or> w' = emit DebugDump w"
      "r = Returned None \<Longrightarrow> w' = emit DebugDump w"
  | (loop_abort) p0 e st1 where "load_progress w = Inr p0" "extract_games_from_page games \<noteq> []"
      "run_loop env games p0 w = (Some e, st1, w')" "r = Raised e"
  | (save_abort) p0 e st1 w1 where "load_progress w = Inr p0" "extract_games_from_page games \<noteq> []"
      "run_loop env games p0 w = (None, st1, w1)" "save_progress env (progress st1) w1 = Inl (e, w')"
      "r = Raised e"
  | (complete) p0 st1 w1 where "load_progress w = Inr p0" "extract_games_from_page games \<noteq> []"
      "run_loop env games p0 w = (None, st1, w1)" "save_progress env (progress st1) w1 = Inr w'"
      "r = Returned (Some \<lparr>n_downloaded = downloaded_count st1, n_skipped = skipped_count st1,
             n_failed = failed_count st1, n_total = length (extract_games_from_page games)\<rparr>)"
proof (cases "load_progress w")
  case (Inl e)
  then have e: "e = JSONDecodeError"
    by (auto simp: load_progress_def split: progress_file.splits)
  have "main env games w = (Raised e, w)"
    by (simp add: main_def Inl)
  with assms have "r = Raised e" "w' = w" by simp_all
  then show ?thesis using Inl e load_error by blast
next
  case (Inr p0)
  show ?thesis
  proof (cases "extract_games_from_page games = []")
    case True
    have "main env games w =
        (case write_debug env (now w) of
           Written \<Rightarrow> (Returned None, emit DebugDump w)
         | OpenRaises e \<Rightarrow> (Raised (OSError e), w)
         | WriteRaises e \<Rightarrow> (Raised (OSError e), emit DebugDump w))"
      by (simp add: main_def Inr True)
    with assms have "(r = Returned None \<and> w' = emit DebugDump w)
        \<or> ((\<exists>m. r = Raised (OSError m)) \<and> (w' = w \<or> w' = emit DebugDump w))"
      by (cases "write_debug env (now w)") auto
    then show ?thesis
      using Inr True no_games [of p0] by blast
  next
    case False
    obtain r1 st1 w1 where l: "run_loop env games p0 w = (r1, st1, w1)"
      by (cases "run_loop env games p0 w")
    then have l': "download_loop env (set (downloaded p0)) (length (extract_games_from_page games))
        (enumerate 1 (extract_games_from_page games))
        \<lparr>downloaded_count = 0, skipped_count = 0, failed_count = 0, progress = p0\<rparr> w = (r1, st1, w1)"
      by (simp add: run_loop_def initial_state_def)
    have m: "main env games w =
        (case (r1, st1, w1) of
           (Some e, st, w1) \<Rightarrow> (Raised e, w1)
         | (None, st, w1) \<Rightarrow>
             (case save_progress env (progress st) w1 of
                Inl (e, w2) \<Rightarrow> (Raised e, w2)
              | Inr w2 \<Rightarrow>
                  (Returned (Some \<lparr>n_downloaded = downloaded_count st, n_skipped = skipped_count st,
                     n_failed = failed_count st, n_total = length (extract_games_from_page games)\<rparr>), w2)))"
      unfolding l' [symmetric] by (simp add: main_def Inr False Let_def)
    show ?thesis
    proof (cases r1)
      case (Some e)
      with m assms have "r = Raised e" "w1 = w'" by simp_all
      then show ?thesis
        using Inr False l Some loop_abort [of p0 e st1] by blast
    next
      case None
      show ?thesis
      proof (cases "save_progress env (progress st1) w1")
        case (Inl ew)
        obtain e w2 where ew: "ew = (e, w2)" by (cases ew)
        with m assms None Inl have "r = Raised e" "w2 = w'" by simp_all
        then show ?thesis
          using \<open>load_progress w = Inr p0\<close> False l None Inl ew save_abort [of p0 st1 w1 e] by blast
      next
        case (Inr w2)
        with m assms None have "r = Returned (Some \<lparr>n_downloaded = downloaded_count st1,
             n_skipped = skipped_count st1, n_failed = failed_count st1,
             n_total = length (extract_games_from_page games)\<rparr>)" "w2 = w'" by simp_all
        then show ?thesis
          using \<open>load_progress w = Inr p0\<close> False l None Inr complete [of p0 st1 w1] by blast
      qed
    qed
  qed
qed

lemma initial_state_simps [simp]:
  "attempts (initial_state p0) = 0" "progress (initial_state p0) = p0"
  "skipped_count (initial_state p0) = 0" "failed_count (initial_state p0) = 0"
  "downloaded_count (initial_state p0) = 0"
  by (simp_all add: initial_state_def attempts_def)

lemma snd_set_enumerate: "snd ` set (enumerate k xs) = set xs"
  by (metis map_snd_enumerate set_map)

lemma run_loop_completed:
  assumes "run_loop env games p0 w = (None, st', w')"
  shows "fetched (trace w') = fetched (trace w) @
           map image_url (filter (\<lambda>x. image_url x \<notin> set (downloaded p0)) (extract_games_from_page games))"
    and "skipped_count st' =
           length (filter (\<lambda>x. image_url x \<in> set (downloaded p0)) (extract_games_from_page games))"
    and "sleeps (trace w') = sleeps (trace w) +
           length (filter (\<lambda>x. image_url x \<notin> set (downloaded p0)) (extract_games_from_page games))"
    and "downloaded_count st' + skipped_count st' + failed_count st'
           = length (extract_games_from_page games)"
  using download_loop_completed [OF assms [unfolded run_loop_def]] by simp_all

text \<open>
  Claim C2. An item of the deduplicated list is skipped exactly when its URL is in the
  downloaded set loaded from the progress record. A skip adds one to \<open>skipped\<close> and
  leaves the world as it is: no request, no delay. Any other item is requested once,
  and leaves \<open>skipped\<close> alone. Over a completed run the requests are the URLs that were
  not in the loaded \<open>downloaded\<close> list, in order, with one delay each; the \<open>failed\<close>
  list plays no part, so a URL that is only there is requested again.
\<close>

theorem skip_resume:
  "(image_url g \<in> ds \<longrightarrow>
      loop_body env ds n (i, g) st w = (None, st\<lparr>skipped_count := skipped_count st + 1\<rparr>, w)) \<and>
   (image_url g \<notin> ds \<and> loop_body env ds n (i, g) st w = (r, st', w') \<longrightarrow>
      skipped_count st' = skipped_count st \<and>
      fetched (trace w') = fetched (trace w) @ [image_url g] \<and>
      sleeps (trace w') = sleeps (trace w) + (if r = None then 1 else 0)) \<and>
   (load_progress w = Inr p0 \<and> main env games w = (Returned (Some s), w2) \<longrightarrow>
      n_skipped s = length (filter (\<lambda>x. image_url x \<in> set (downloaded p0)) (extract_games_from_page games)) \<and>
      fetched (trace w2) = fetched (trace w) @
        map image_url (filter (\<lambda>x. image_url x \<notin> set (downloaded p0)) (extract_games_from_page games)) \<and>
      sleeps (trace w2) = sleeps (trace w) +
        length (filter (\<lambda>x. image_url x \<notin> set (downloaded p0)) (extract_games_from_page games)))"
proof (intro conjI impI)
  assume "image_url g \<in> ds"
  then show "loop_body env ds n (i, g) st w = (None, st\<lparr>skipped_count := skipped_count st + 1\<rparr>, w)"
    by (rule loop_body_skip)
next
  assume a: "image_url g \<notin> ds \<and> loop_body env ds n (i, g) st w = (r, st', w')"
  then have b: "loop_body env ds n (i, g) st w = (r, st', w')" and g: "image_url g \<notin> ds"
    by simp_all
  note la = loop_body_attempt [OF g b]
  show "skipped_count st' = skipped_count st"
    unfolding la(1) by (simp add: record_outcome_simps)
  show "fetched (trace w') = fetched (trace w) @ [image_url g]" by (rule la(2))
  show "sleeps (trace w') = sleeps (trace w) + (if r = None then 1 else 0)" by (rule la(5))
next
  assume a: "load_progress w = Inr p0 \<and> main env games w = (Returned (Some s), w2)"
  then have m: "main env games w = (Returned (Some s), w2)" and l: "load_progress w = Inr p0"
    by simp_all
  from m have "n_skipped s = length (filter (\<lambda>x. image_url x \<in> set (downloaded p0)) (extract_games_from_page games)) \<and>
      fetched (trace w2) = fetched (trace w) @
        map image_url (filter (\<lambda>x. image_url x \<notin> set (downloaded p0)) (extract_games_from_page games)) \<and>
      sleeps (trace w2) = sleeps (trace w) +
        length (filter (\<lambda>x. image_url x \<notin> set (downloaded p0)) (extract_games_from_page games))"
  proof (cases rule: main_cases)
    case (complete q0 st1 w1)
    then have q: "q0 = p0" using l by simp
    note rl = run_loop_completed [OF complete(3) [unfolded q]]
    from save_progress_result(1) [OF complete(4)]
    have t: "trace w2 = trace w1 @ [Save (progress st1)]" by simp
    show ?thesis using rl complete(5) by (simp add: t)
  qed simp_all
  then show "n_skipped s = length (filter (\<lambda>x. image_url x \<in> set (downloaded p0)) (extract_games_from_page games))"
    and "fetched (trace w2) = fetched (trace w) @
        map image_url (filter (\<lambda>x. image_url x \<notin> set (downloaded p0)) (extract_games_from_page games))"
    and "sleeps (trace w2) = sleeps (trace w) +
        length (filter (\<lambda>x. image_url x \<notin> set (downloaded p0)) (extract_games_from_page games))"
    by simp_all
qed

theorem skip_resume_witness:
  "load_progress resumed_world = Inr \<lparr>downloaded = [''https://rec0ded88.com/wp/NES_Covers-2D/Contra-USA.png''],
        failed = [\<lparr>fail_title = ''Metroid'',
                   fail_url = ''https://rec0ded88.com/wp/NES_Covers-2D/Metroid-USA.png''\<rparr>]\<rparr> \<and>
   fst (main (fake_env all_ok) two_games resumed_world)
     = Returned (Some \<lparr>n_downloaded = 1, n_skipped = 1, n_failed = 0, n_total = 2\<rparr>) \<and>
   fetched (trace (snd (main (fake_env all_ok) two_games resumed_world)))
     = [''https://rec0ded88.com/wp/NES_Covers-2D/Metroid-USA.png''] \<and>
   sleeps (trace (snd (main (fake_env all_ok) two_games resumed_world))) = 1"
proof -
  let ?p0 = "\<lparr>downloaded = [''https://rec0ded88.com/wp/NES_Covers-2D/Contra-USA.png''],
        failed = [\<lparr>fail_title = ''Metroid'',
                   fail_url = ''https://rec0ded88.com/wp/NES_Covers-2D/Metroid-USA.png''\<rparr>]\<rparr>"
  let ?s = "\<lparr>n_downloaded = 1, n_skipped = 1, n_failed = 0, n_total = 2\<rparr>"
  let ?w2 = "snd (main (fake_env all_ok) two_games resumed_world)"
  have l: "load_progress resumed_world = Inr ?p0"
    by (simp add: load_progress_def resumed_world_def)
  have f: "fst (main (fake_env all_ok) two_games resumed_world) = Returned (Some ?s)"
    by code_simp
  then have m: "main (fake_env all_ok) two_games resumed_world = (Returned (Some ?s), ?w2)"
    by (metis prod.collapse)
  have e: "extract_games_from_page two_games = two_games"
    by (simp add: extract_games_from_page_def two_games_def)
  have t: "trace resumed_world = []" by (simp add: resumed_world_def)
  from skip_resume [of _ _ "fake_env all_ok" _ _ _ resumed_world _ _ _ ?p0 two_games ?s ?w2] l m
  have "fetched (trace ?w2) = fetched (trace resumed_world) @
        map image_url (filter (\<lambda>x. image_url x \<notin> set (downloaded ?p0)) (extract_games_from_page two_games))"
    and "sleeps (trace ?w2) = sleeps (trace resumed_world) +
        length (filter (\<lambda>x. image_url x \<notin> set (downloaded ?p0)) (extract_games_from_page two_games))"
    by blast+
  then have "fetched (trace ?w2) = [''https://rec0ded88.com/wp/NES_Covers-2D/Metroid-USA.png'']"
    and "sleeps (trace ?w2) = 1"
    unfolding e t by (simp_all add: two_games_def)
  then show ?thesis using l f by simp
qed

section \<open>Checkpoints\<close>

lemma run_loop_saves:
  assumes "run_loop env games p0 w = (r, st', w')"
  shows "\<exists>new. saves (trace w') = saves (trace w) @ new
       \<and> sorted_wrt grows new
       \<and> (\<forall>p\<in>set new. grows p0 p \<and> grows p (progress st'))
       \<and> map resolved new = map (\<lambda>j. resolved p0 + 10 * j) [1..<Suc (attempts st' div 10)]
       \<and> (progress_file w' = progress_file w \<or> progress_file w' = Malformed
            \<or> (\<exists>p\<in>set new. progress_file w' = Json p))"
  using download_loop_saves [OF assms [unfolded run_loop_def]] by simp

lemma run_loop_counts:
  assumes "run_loop env games p0 w = (r, st', w')"
  shows "attempts st' + length (fetched (trace w)) = length (fetched (trace w'))"
    and "grows p0 (progress st')"
    and "resolved (progress st') = resolved p0 + attempts st'"
  using download_loop_counts [OF assms [unfolded run_loop_def]] by simp_all

text \<open>
  Claim C6. The resolved attempts of a run are its successes and failures together; a
  skip is none. After an attempt that brings their number to a multiple of 10,
  \<open>save_progress\<close> is called with the record that already holds the outcome of that
  attempt, and when the write goes through the progress file holds that record. A skip
  or any other attempt saves nothing. Over the loop of a run, the records saved are
  those after 10, 20, ... attempts: the j-th holds 10 j outcomes more than the loaded
  record, whose entries it keeps.
\<close>

theorem checkpoint_cadence:
  "(image_url g \<in> ds \<and> loop_body env ds n (i, g) st w = (r, st', w') \<longrightarrow>
      attempts st' = attempts st \<and> saves (trace w') = saves (trace w)) \<and>
   (image_url g \<notin> ds \<and> loop_body env ds n (i, g) st w = (r, st', w') \<longrightarrow>
      attempts st' = attempts st + 1 \<and>
      resolved (progress st') = resolved (progress st) + 1 \<and>
      saves (trace w') = saves (trace w) @ (if attempts st' mod 10 = 0 then [progress st'] else []) \<and>
      (attempts st' mod 10 = 0 \<and> r = None \<longrightarrow> progress_file w' = Json (progress st'))) \<and>
   (run_loop env games p0 w = (r2, st2, w2) \<longrightarrow>
      attempts st2 + length (fetched (trace w)) = length (fetched (trace w2)) \<and>
      (\<exists>new. saves (trace w2) = saves (trace w) @ new \<and>
             map resolved new = map (\<lambda>j. resolved p0 + 10 * j) [1..<Suc (attempts st2 div 10)] \<and>
             (\<forall>p\<in>set new. grows p0 p)))"
proof (intro conjI impI)
  assume "image_url g \<in> ds \<and> loop_body env ds n (i, g) st w = (r, st', w')"
  then have g: "image_url g \<in> ds" and b: "loop_body env ds n (i, g) st w = (r, st', w')"
    by simp_all
  note s = loop_body_step [OF b]
  show "attempts st' = attempts st" using s(1) g by simp
  show "saves (trace w') = saves (trace w)" using s(5) g by simp
next
  assume "image_url g \<notin> ds \<and> loop_body env ds n (i, g) st w = (r, st', w')"
  then have g: "image_url g \<notin> ds" and b: "loop_body env ds n (i, g) st w = (r, st', w')"
    by simp_all
  note s = loop_body_step [OF b]
  note la = loop_body_attempt [OF g b]
  show "attempts st' = attempts st + 1" using s(1) g by simp
  show "resolved (progress st') = resolved (progress st) + 1" using s(7) g by simp
  show "saves (trace w') = saves (trace w) @ (if attempts st' mod 10 = 0 then [progress st'] else [])"
    by (rule la(4))
  show "progress_file w' = Json (progress st')" if "attempts st' mod 10 = 0 \<and> r = None"
    using that la(10) by simp
next
  assume l: "run_loop env games p0 w = (r2, st2, w2)"
  show "attempts st2 + length (fetched (trace w)) = length (fetched (trace w2))"
    by (rule run_loop_counts(1) [OF l])
  from run_loop_saves [OF l]
  show "\<exists>new. saves (trace w2) = saves (trace w) @ new \<and>
             map resolved new = map (\<lambda>j. resolved p0 + 10 * j) [1..<Suc (attempts st2 div 10)] \<and>
             (\<forall>p\<in>set new. grows p0 p)"
    by blast
qed

theorem checkpoint_cadence_witness:
  "attempts (fst nine_done) = 9 \<and>
   saves (trace (snd nine_done)) = [] \<and>
   image_url (ten_games ! 9) \<notin> {} \<and>
   fst tenth_step = None \<and>
   attempts (fst (snd tenth_step)) = 10 \<and>
   resolved (progress (fst (snd tenth_step))) = 10 \<and>
   saves (trace (snd (snd tenth_step))) = [progress (fst (snd tenth_step))] \<and>
   progress_file (snd (snd tenth_step)) = Json (progress (fst (snd tenth_step))) \<and>
   map resolved (saves (trace (snd (snd (run_loop (fake_env all_ok) ten_games
      \<lparr>downloaded = [], failed = []\<rparr> fresh_world))))) = [10]"
proof -
  let ?st = "fst (snd tenth_step)" and ?w = "snd (snd tenth_step)"
  let ?l = "run_loop (fake_env all_ok) ten_games \<lparr>downloaded = [], failed = []\<rparr> fresh_world"
  have n: "attempts (fst nine_done) = 9" by code_simp
  have sn: "saves (trace (snd nine_done)) = []" by code_simp
  have r: "fst tenth_step = None" by code_simp
  then have b: "loop_body (fake_env all_ok) {} 10 (10, ten_games ! 9) (fst nine_done) (snd nine_done)
      = (None, ?st, ?w)"
    unfolding tenth_step_def by (metis prod.collapse)
  have g: "image_url (ten_games ! 9) \<notin> {}" by simp
  have rs: "resolved (progress ?st) = 10" by code_simp
  have l: "?l = (fst ?l, fst (snd ?l), snd (snd ?l))" by simp
  have al: "attempts (fst (snd ?l)) = 10" by code_simp
  have t: "saves (trace fresh_world) = []" by (simp add: fresh_world_def)
  note c = checkpoint_cadence [of "ten_games ! 9" "{}" "fake_env all_ok" 10 10 "fst nine_done"
      "snd nine_done" None ?st ?w]
  note d = checkpoint_cadence [of _ _ "fake_env all_ok" _ _ _ fresh_world _ _ _
      ten_games "\<lparr>downloaded = [], failed = []\<rparr>" "fst ?l" "fst (snd ?l)" "snd (snd ?l)"]
  have a: "attempts ?st = 10" using c g b n by simp
  have 1: "saves (trace ?w) = [progress ?st]" and 2: "progress_file ?w = Json (progress ?st)"
    using c g b a sn by simp_all
  from d l obtain new where "saves (trace (snd (snd ?l))) = saves (trace fresh_world) @ new"
    "map resolved new = map (\<lambda>j. resolved \<lparr>downloaded = [], failed = []\<rparr> + 10 * j)
       [1..<Suc (attempts (fst (snd ?l)) div 10)]"
    by blast
  then have 3: "map resolved (saves (trace (snd (snd ?l)))) = [10]"
    unfolding t al by (simp add: resolved_def)
  show ?thesis using n sn r a rs 1 2 3 by simp
qed

section \<open>Failures of one fetch\<close>

text \<open>
  Claim C8. \<open>download_image\<close> always returns a truth value: one request is made per call
  (no retry), and the call returns \<open>False\<close> with one line logged when the request raises,
  the response is not \<open>ok\<close>, its body cannot be read, or the file cannot be written. In
  the loop such an attempt adds one to \<open>failed\<close>, appends the title and the URL to the
  \<open>failed\<close> list and changes nothing else of the counters and the record; the loop goes
  on to the next item (the one thing that can still raise in the iteration is the
  checkpoint save after a 10th attempt).
\<close>

theorem fetch_error_containment:
  "(download_image env u p w = (b, w') \<longrightarrow>
      b = fetch_succeeds env (now w) u p \<and>
      fetched (trace w') = fetched (trace w) @ [u] \<and>
      length (log_lines (trace w')) = length (log_lines (trace w)) + (if b then 0 else 1)) \<and>
   (request_get env t u = Inl e \<longrightarrow> \<not> fetch_succeeds env t u p) \<and>
   (request_get env t u = Inr resp \<and> \<not> ok resp \<longrightarrow> \<not> fetch_succeeds env t u p) \<and>
   (request_get env t u = Inr resp \<and> body resp = Inl e \<longrightarrow> \<not> fetch_succeeds env t u p) \<and>
   (request_get env t u = Inr resp \<and> write_image env (Suc t) p \<noteq> Written \<longrightarrow>
      \<not> fetch_succeeds env t u p) \<and>
   (image_url g \<notin> ds \<and>
    \<not> fetch_succeeds env (Suc (now w)) (image_url g)
        (prepare_filename env (files w) (title g) (image_url g)) \<and>
    loop_body env ds n (i, g) st w = (r, st', w2) \<longrightarrow>
      failed_count st' = failed_count st + 1 \<and>
      downloaded_count st' = downloaded_count st \<and>
      skipped_count st' = skipped_count st \<and>
      progress st' = (progress st)\<lparr>failed := failed (progress st) @
         [\<lparr>fail_title = title g, fail_url = image_url g\<rparr>]\<rparr> \<and>
      fetched (trace w2) = fetched (trace w) @ [image_url g] \<and>
      marks (trace w2) = marks (trace w) @ [False] \<and>
      length (log_lines (trace w2)) = length (log_lines (trace w)) + 1 \<and>
      (r = None \<or> (attempts st' mod 10 = 0 \<and> (\<exists>m. r = Some (OSError m))))) \<and>
   (loop_body env ds n ig st w = (None, st1, w1) \<longrightarrow>
      download_loop env ds n (ig # rest) st w = download_loop env ds n rest st1 w1)"
proof (intro conjI impI)
  assume d: "download_image env u p w = (b, w')"
  note di = download_image_result [OF d]
  show "b = fetch_succeeds env (now w) u p" by (rule di(1))
  show "fetched (trace w') = fetched (trace w) @ [u]" by (rule di(2))
  show "length (log_lines (trace w')) = length (log_lines (trace w)) + (if b then 0 else 1)"
    by (rule di(6))
next
  assume "request_get env t u = Inl e"
  then show "\<not> fetch_succeeds env t u p" by (simp add: fetch_succeeds_def)
next
  assume "request_get env t u = Inr resp \<and> \<not> ok resp"
  then show "\<not> fetch_succeeds env t u p" by (simp add: fetch_succeeds_def)
next
  assume "request_get env t u = Inr resp \<and> body resp = Inl e"
  then show "\<not> fetch_succeeds env t u p" by (simp add: fetch_succeeds_def)
next
  assume "request_get env t u = Inr resp \<and> write_image env (Suc t) p \<noteq> Written"
  then show "\<not> fetch_succeeds env t u p"
    by (auto simp: fetch_succeeds_def split: sum.splits)
next
  assume a: "image_url g \<notin> ds \<and>
    \<not> fetch_succeeds env (Suc (now w)) (image_url g)
        (prepare_filename env (files w) (title g) (image_url g)) \<and>
    loop_body env ds n (i, g) st w = (r, st', w2)"
  then have g: "image_url g \<notin> ds" and b: "loop_body env ds n (i, g) st w = (r, st', w2)"
    and f: "\<not> fetch_succeeds env (Suc (now w)) (image_url g)
        (prepare_filename env (files w) (title g) (image_url g))"
    by simp_all
  note la = loop_body_attempt [OF g b]
  have st': "st' = record_outcome False g st" using la(1) f by simp
  show "failed_count st' = failed_count st + 1" "downloaded_count st' = downloaded_count st"
    "skipped_count st' = skipped_count st"
    "progress st' = (progress st)\<lparr>failed := failed (progress st) @
         [\<lparr>fail_title = title g, fail_url = image_url g\<rparr>]\<rparr>"
    unfolding st' by (simp_all add: record_outcome_def)
  show "fetched (trace w2) = fetched (trace w) @ [image_url g]" by (rule la(2))
  show "marks (trace w2) = marks (trace w) @ [False]" using la(3) f by simp
  show "length (log_lines (trace w2)) = length (log_lines (trace w)) + 1" using la(6) f by simp
  show "r = None \<or> (attempts st' mod 10 = 0 \<and> (\<exists>m. r = Some (OSError m)))"
    using la(7,8) by blast
next
  assume "loop_body env ds n ig st w = (None, st1, w1)"
  then show "download_loop env ds n (ig # rest) st w = download_loop env ds n rest st1 w1"
    by simp
qed

theorem fetch_error_containment_witness:
  "download_image (fake_env unreachable) ''https://rec0ded88.com/wp/NES_Covers-2D/Contra-USA.png''
       ''contra.png'' fresh_world
     = (False, fresh_world\<lparr>trace :=
          [Get ''https://rec0ded88.com/wp/NES_Covers-2D/Contra-USA.png'',
           LogError ''https://rec0ded88.com/wp/NES_Covers-2D/Contra-USA.png'' ''Timeout 30000ms exceeded'']\<rparr>) \<and>
   fst (loop_body (fake_env not_found) {} 2 (1, hd two_games) (initial_state \<lparr>downloaded = [], failed = []\<rparr>)
       fresh_world) = None \<and>
   failed (progress (fst (snd (loop_body (fake_env not_found) {} 2 (1, hd two_games)
       (initial_state \<lparr>downloaded = [], failed = []\<rparr>) fresh_world))))
     = [\<lparr>fail_title = ''Contra'', fail_url = ''https://rec0ded88.com/wp/NES_Covers-2D/Contra-USA.png''\<rparr>] \<and>
   failed_count (fst (snd (loop_body (fake_env not_found) {} 2 (1, hd two_games)
       (initial_state \<lparr>downloaded = [], failed = []\<rparr>) fresh_world))) = 1 \<and>
   fst (main (fake_env not_found) two_games fresh_world)
     = Returned (Some \<lparr>n_downloaded = 0, n_skipped = 0, n_failed = 2, n_total = 2\<rparr>)"
proof -
  let ?u = "''https://rec0ded88.com/wp/NES_Covers-2D/Contra-USA.png''"
  let ?st0 = "initial_state \<lparr>downloaded = [], failed = []\<rparr>"
  let ?b = "loop_body (fake_env not_found) {} 2 (1, hd two_games) ?st0 fresh_world"
  have d: "download_image (fake_env unreachable) ?u ''contra.png'' fresh_world
     = (False, fresh_world\<lparr>trace := [Get ?u, LogError ?u ''Timeout 30000ms exceeded'']\<rparr>)"
    by (simp add: download_image_def fake_env_def unreachable_def emit_def fresh_world_def now_def)
  have r: "fst ?b = None" by code_simp
  have b: "?b = (fst ?b, fst (snd ?b), snd (snd ?b))" by simp
  have g: "image_url (hd two_games) \<notin> {}" by simp
  have ti: "title (hd two_games) = ''Contra''" "image_url (hd two_games) = ?u"
    by (simp_all add: two_games_def)
  have nf: "request_get (fake_env not_found) (Suc (now fresh_world)) (image_url (hd two_games))
      = Inr \<lparr>ok = False, status = 404, body = Inr []\<rparr> \<and> \<not> ok \<lparr>ok = False, status = 404, body = Inr []\<rparr>"
    by (simp add: fake_env_def not_found_def)
  note c = fetch_error_containment [of "fake_env not_found" _ _ _ _ _ "Suc (now fresh_world)" _
      "\<lparr>ok = False, status = 404, body = Inr []\<rparr>" "hd two_games" "{}" 2 1 ?st0
      "fst ?b" "fst (snd ?b)" "snd (snd ?b)"]
  have f: "\<not> fetch_succeeds (fake_env not_found) (Suc (now fresh_world)) (image_url (hd two_games))
        (prepare_filename (fake_env not_found) (files fresh_world) (title (hd two_games)) (image_url (hd two_games)))"
    using c nf ti
      fetch_error_containment [of "fake_env not_found" "image_url (hd two_games)"
        "prepare_filename (fake_env not_found) (files fresh_world) (title (hd two_games)) (image_url (hd two_games))"
        _ _ _ "Suc (now fresh_world)" _ "\<lparr>ok = False, status = 404, body = Inr []\<rparr>"]
    by blast
  have 1: "failed_count (fst (snd ?b)) = 1"
    and 2: "failed (progress (fst (snd ?b))) = [\<lparr>fail_title = ''Contra'', fail_url = ?u\<rparr>]"
    using c g f b by (simp_all add: ti initial_state_def)
  have 3: "fst (main (fake_env not_found) two_games fresh_world)
     = Returned (Some \<lparr>n_downloaded = 0, n_skipped = 0, n_failed = 2, n_total = 2\<rparr>)"
    by code_simp
  show ?thesis using d r 1 2 3 by simp
qed

section \<open>The progress record only grows\<close>

lemma sorted_wrt_grows_chain:
  assumes "sorted_wrt grows new" and "\<forall>p\<in>set new. grows a p \<and> grows p b" and "grows a b"
  shows "sorted_wrt grows (a # new @ [b])"
  using assms by (simp add: sorted_wrt_append)

lemma load_progress_Json: "progress_file w = Json p \<Longrightarrow> load_progress w = Inr p"
  by (simp add: load_progress_def)

text \<open>
  Claim C10. The progress record in memory only grows: after one iteration, and after
  any stretch of the loop, the \<open>downloaded\<close> and \<open>failed\<close> lists have the earlier lists as
  prefixes. The records handed to \<open>save_progress\<close> during a run form a chain that starts
  from the loaded record, each one extending every earlier one, and a progress file
  that a run leaves well-formed extends the loaded record.
\<close>

theorem progress_only_grows:
  "(loop_body env ds n ig st w = (r, st', w') \<longrightarrow> grows (progress st) (progress st')) \<and>
   (download_loop env ds n igs st w = (r, st', w') \<longrightarrow>
      (\<exists>new. saves (trace w') = saves (trace w) @ new \<and>
             sorted_wrt grows (progress st # new @ [progress st']))) \<and>
   (load_progress w = Inr p0 \<and> main env games w = (r2, w2) \<longrightarrow>
      (\<exists>new. saves (trace w2) = saves (trace w) @ new \<and> sorted_wrt grows (p0 # new)) \<and>
      (\<forall>p. progress_file w2 = Json p \<longrightarrow> grows p0 p))"
proof (intro conjI impI)
  assume "loop_body env ds n ig st w = (r, st', w')"
  then show "grows (progress st) (progress st')" by (rule loop_body_step(6))
next
  assume l: "download_loop env ds n igs st w = (r, st', w')"
  from download_loop_saves [OF l] obtain new where n:
    "saves (trace w') = saves (trace w) @ new" "sorted_wrt grows new"
    "\<forall>p\<in>set new. grows (progress st) p \<and> grows p (progress st')"
    by blast
  have "grows (progress st) (progress st')"
    using download_loop_counts [OF l] by simp
  then have "sorted_wrt grows (progress st # new @ [progress st'])"
    using n(2,3) by (intro sorted_wrt_grows_chain)
  then show "\<exists>new. saves (trace w') = saves (trace w) @ new \<and>
             sorted_wrt grows (progress st # new @ [progress st'])"
    using n(1) by blast
next
  assume "load_progress w = Inr p0 \<and> main env games w = (r2, w2)"
  then have l: "load_progress w = Inr p0" and m: "main env games w = (r2, w2)" by simp_all
  from m have "(\<exists>new. saves (trace w2) = saves (trace w) @ new \<and> sorted_wrt grows (p0 # new)) \<and>
      (\<forall>p. progress_file w2 = Json p \<longrightarrow> grows p0 p)"
  proof (cases rule: main_cases)
    case load_error
    then show ?thesis using l by simp
  next
    case (no_games q0)
    then have t: "saves (trace w2) = saves (trace w)" "progress_file w2 = progress_file w"
      by (auto simp: emit_def)
    have "grows p0 p" if "progress_file w2 = Json p" for p
      using that t(2) l load_progress_Json [of w p] by simp
    then show ?thesis using t(1) by (intro conjI exI [of _ "[]"]) simp_all
  next
    case (loop_abort q0 e st1)
    then have q: "q0 = p0" using l by simp
    from run_loop_saves [OF loop_abort(3) [unfolded q]] obtain new where n:
      "saves (trace w2) = saves (trace w) @ new" "sorted_wrt grows new"
      "\<forall>p\<in>set new. grows p0 p \<and> grows p (progress st1)"
      "progress_file w2 = progress_file w \<or> progress_file w2 = Malformed
         \<or> (\<exists>p\<in>set new. progress_file w2 = Json p)"
      by blast
    have "grows p0 p" if "progress_file w2 = Json p" for p
      using that n(3,4) l load_progress_Json [of w p] by auto
    moreover have "sorted_wrt grows (p0 # new)" using n(2,3) by simp
    ultimately show ?thesis using n(1) by blast
  next
    case (save_abort q0 e st1 w1)
    then have q: "q0 = p0" using l by simp
    from run_loop_saves [OF save_abort(3) [unfolded q]] obtain new where n:
      "saves (trace w1) = saves (trace w) @ new" "sorted_wrt grows new"
      "\<forall>p\<in>set new. grows p0 p \<and> grows p (progress st1)"
      "progress_file w1 = progress_file w \<or> progress_file w1 = Malformed
         \<or> (\<exists>p\<in>set new. progress_file w1 = Json p)"
      by blast
    note g = run_loop_counts(2) [OF save_abort(3) [unfolded q]]
    note sp = save_progress_result(2) [OF save_abort(4)]
    have 1: "saves (trace w2) = saves (trace w) @ (new @ [progress st1])"
      using sp n(1) by simp
    have 2: "sorted_wrt grows (p0 # new @ [progress st1])"
      using n(2,3) g by (intro sorted_wrt_grows_chain)
    have "grows p0 p" if "progress_file w2 = Json p" for p
      using that sp n(3,4) l load_progress_Json [of w p] by auto
    then show ?thesis using 1 2 by blast
  next
    case (complete q0 st1 w1)
    then have q: "q0 = p0" using l by simp
    from run_loop_saves [OF complete(3) [unfolded q]] obtain new where n:
      "saves (trace w1) = saves (trace w) @ new" "sorted_wrt grows new"
      "\<forall>p\<in>set new. grows p0 p \<and> grows p (progress st1)"
      by blast
    note g = run_loop_counts(2) [OF complete(3) [unfolded q]]
    note sp = save_progress_result(1) [OF complete(4)]
    have 1: "saves (trace w2) = saves (trace w) @ (new @ [progress st1])"
      using sp n(1) by simp
    have 2: "sorted_wrt grows (p0 # new @ [progress st1])"
      using n(2,3) g by (intro sorted_wrt_grows_chain)
    have "grows p0 p" if "progress_file w2 = Json p" for p
      using that sp g by simp
    then show ?thesis using 1 2 by blast
  qed
  then show "\<exists>new. saves (trace w2) = saves (trace w) @ new \<and> sorted_wrt grows (p0 # new)"
    and "\<forall>p. progress_file w2 = Json p \<longrightarrow> grows p0 p"
    by simp_all
qed

theorem progress_only_grows_witness:
  "load_progress resumed_world = Inr \<lparr>downloaded = [''https://rec0ded88.com/wp/NES_Covers-2D/Contra-USA.png''],
        failed = [\<lparr>fail_title = ''Metroid'',
                   fail_url = ''https://rec0ded88.com/wp/NES_Covers-2D/Metroid-USA.png''\<rparr>]\<rparr> \<and>
   progress_file (snd (main (fake_env all_ok) two_games resumed_world))
     = Json \<lparr>downloaded = [''https://rec0ded88.com/wp/NES_Covers-2D/Contra-USA.png'',
                           ''https://rec0ded88.com/wp/NES_Covers-2D/Metroid-USA.png''],
        failed = [\<lparr>fail_title = ''Metroid'',
                   fail_url = ''https://rec0ded88.com/wp/NES_Covers-2D/Metroid-USA.png''\<rparr>]\<rparr> \<and>
   grows \<lparr>downloaded = [''https://rec0ded88.com/wp/NES_Covers-2D/Contra-USA.png''],
        failed = [\<lparr>fail_title = ''Metroid'',
                   fail_url = ''https://rec0ded88.com/wp/NES_Covers-2D/Metroid-USA.png''\<rparr>]\<rparr>
     \<lparr>downloaded = [''https://rec0ded88.com/wp/NES_Covers-2D/Contra-USA.png'',
                           ''https://rec0ded88.com/wp/NES_Covers-2D/Metroid-USA.png''],
        failed = [\<lparr>fail_title = ''Metroid'',
                   fail_url = ''https://rec0ded88.com/wp/NES_Covers-2D/Metroid-USA.png''\<rparr>]\<rparr>"
proof -
  let ?p0 = "\<lparr>downloaded = [''https://rec0ded88.com/wp/NES_Covers-2D/Contra-USA.png''],
        failed = [\<lparr>fail_title = ''Metroid'',
                   fail_url = ''https://rec0ded88.com/wp/NES_Covers-2D/Metroid-USA.png''\<rparr>]\<rparr>"
  let ?p1 = "\<lparr>downloaded = [''https://rec0ded88.com/wp/NES_Covers-2D/Contra-USA.png'',
                           ''https://rec0ded88.com/wp/NES_Covers-2D/Metroid-USA.png''],
        failed = [\<lparr>fail_title = ''Metroid'',
                   fail_url = ''https://rec0ded88.com/wp/NES_Covers-2D/Metroid-USA.png''\<rparr>]\<rparr>"
  let ?m = "main (fake_env all_ok) two_games resumed_world"
  have l: "load_progress resumed_world = Inr ?p0"
    by (simp add: load_progress_def resumed_world_def)
  have m: "?m = (fst ?m, snd ?m)" by simp
  have f: "progress_file (snd ?m) = Json ?p1" by code_simp
  from progress_only_grows [of "fake_env all_ok" _ _ _ _ resumed_world _ _ _ _ ?p0 two_games
      "fst ?m" "snd ?m"] l m
  have "\<forall>p. progress_file (snd ?m) = Json p \<longrightarrow> grows ?p0 p" by blast
  then have "grows ?p0 ?p1" using f by blast
  then show ?thesis using l f by simp
qed

section \<open>The final save\<close>

lemma length_saves_run_loop:
  assumes "run_loop env games p0 w = (r, st', w')"
  shows "length (saves (trace w')) = length (saves (trace w)) + attempts st' div 10"
proof -
  from run_loop_saves [OF assms] obtain new where n:
    "saves (trace w') = saves (trace w) @ new"
    "map resolved new = map (\<lambda>j. resolved p0 + 10 * j) [1..<Suc (attempts st' div 10)]"
    by blast
  have "length new = attempts st' div 10"
    using arg_cong [OF n(2), of length] by simp
  then show ?thesis using n(1) by simp
qed

text \<open>
  Claim C3, as stated, fails on two of its three exit paths. With no game found the run
  returns without a single save. When the checkpoint save after the 10th attempt raises,
  the run ends with that exception: the one save attempted is the checkpoint itself and
  no final save follows.
\<close>

theorem final_save_counterexample:
  "fst (main (fake_env all_ok) [] fresh_world) = Returned None \<and>
   saves (trace (snd (main (fake_env all_ok) [] fresh_world))) = [] \<and>
   progress_file (snd (main (fake_env all_ok) [] fresh_world)) = NoFile \<and>
   fst (main disk_full ten_games fresh_world) = Raised (OSError ''disk full'') \<and>
   length (saves (trace (snd (main disk_full ten_games fresh_world)))) = 1 \<and>
   length (fetched (trace (snd (main disk_full ten_games fresh_world)))) = 10 \<and>
   progress_file (snd (main disk_full ten_games fresh_world)) = NoFile"
  by code_simp

text \<open>
  Claim C3, amended. A final save follows the loop when the loop completes: a run that
  reaches its summary has made one save more than its checkpoints, the last event of
  the run, and the progress file holds the record with every outcome of the run. The
  early return when no game was found saves nothing and leaves the progress file as it
  was. A run whose loop is left by an exception ends with that exception and makes no
  save beyond the checkpoints of the loop.
\<close>

theorem final_save_after_completed_loop:
  "load_progress w = Inr p0 \<and> main env games w = (r, w') \<longrightarrow>
     (r = Returned (Some s) \<longrightarrow>
        (\<exists>p. trace w' \<noteq> [] \<and> last (trace w') = Save p \<and> progress_file w' = Json p \<and>
             resolved p = resolved p0 + n_downloaded s + n_failed s) \<and>
        length (saves (trace w')) = length (saves (trace w)) + (n_downloaded s + n_failed s) div 10 + 1) \<and>
     (r = Returned None \<longrightarrow>
        saves (trace w') = saves (trace w) \<and> progress_file w' = progress_file w) \<and>
     (fst (run_loop env games p0 w) = Some e \<longrightarrow>
        r = Raised e \<and>
        length (saves (trace w')) = length (saves (trace w)) +
          (length (fetched (trace w')) - length (fetched (trace w))) div 10)"
proof (intro impI)
  assume "load_progress w = Inr p0 \<and> main env games w = (r, w')"
  then have l: "load_progress w = Inr p0" and m: "main env games w = (r, w')" by simp_all
  from m show "(r = Returned (Some s) \<longrightarrow>
        (\<exists>p. trace w' \<noteq> [] \<and> last (trace w') = Save p \<and> progress_file w' = Json p \<and>
             resolved p = resolved p0 + n_downloaded s + n_failed s) \<and>
        length (saves (trace w')) = length (saves (trace w)) + (n_downloaded s + n_failed s) div 10 + 1) \<and>
     (r = Returned None \<longrightarrow>
        saves (trace w') = saves (trace w) \<and> progress_file w' = progress_file w) \<and>
     (fst (run_loop env games p0 w) = Some e \<longrightarrow>
        r = Raised e \<and>
        length (saves (trace w')) = length (saves (trace w)) +
          (length (fetched (trace w')) - length (fetched (trace w))) div 10)"
  proof (cases rule: main_cases)
    case load_error
    then show ?thesis using l by simp
  next
    case (no_games q0)
    then have q: "q0 = p0" using l by simp
    have "run_loop env games p0 w = (None, initial_state p0, w)"
      by (simp add: run_loop_def no_games(2))
    moreover have "saves (trace w') = saves (trace w) \<and> progress_file w' = progress_file w"
      using no_games(4) by (auto simp: emit_def)
    ultimately show ?thesis using no_games(3) by auto
  next
    case (loop_abort q0 e1 st1)
    then have q: "q0 = p0" using l by simp
    note rl = loop_abort(3) [unfolded q]
    have "length (saves (trace w')) = length (saves (trace w)) +
          (length (fetched (trace w')) - length (fetched (trace w))) div 10"
      using length_saves_run_loop [OF rl] run_loop_counts(1) [OF rl, symmetric] by simp
    then show ?thesis using loop_abort(4) rl by simp
  next
    case (save_abort q0 e1 st1 w1)
    then have q: "q0 = p0" using l by simp
    show ?thesis using save_abort(3,5) by (simp add: q)
  next
    case (complete q0 st1 w1)
    then have q: "q0 = p0" using l by simp
    note rl = complete(3) [unfolded q]
    note sp = save_progress_result(1) [OF complete(4)]
    have s: "n_downloaded s + n_failed s = attempts st1" if "r = Returned (Some s)"
      using that complete(5) by (auto simp: attempts_def)
    have 1: "trace w' \<noteq> [] \<and> last (trace w') = Save (progress st1) \<and>
          progress_file w' = Json (progress st1)"
      using sp by simp
    have 2: "resolved (progress st1) = resolved p0 + attempts st1"
      by (rule run_loop_counts(3) [OF rl])
    have 3: "length (saves (trace w')) = length (saves (trace w)) + attempts st1 div 10 + 1"
      using length_saves_run_loop [OF rl] sp by simp
    show ?thesis
      using 1 2 3 s rl complete(5) by (auto simp: add.assoc)
  qed
qed

theorem final_save_after_completed_loop_witness:
  "load_progress fresh_world = Inr \<lparr>downloaded = [], failed = []\<rparr> \<and>
   fst (main (fake_env all_ok) two_games fresh_world)
     = Returned (Some \<lparr>n_downloaded = 2, n_skipped = 0, n_failed = 0, n_total = 2\<rparr>) \<and>
   length (saves (trace (snd (main (fake_env all_ok) two_games fresh_world)))) = 1 \<and>
   fst (run_loop disk_full ten_games \<lparr>downloaded = [], failed = []\<rparr> fresh_world)
     = Some (OSError ''disk full'') \<and>
   fst (main disk_full ten_games fresh_world) = Raised (OSError ''disk full'')"
proof -
  let ?e = "\<lparr>downloaded = [], failed = []\<rparr>"
  let ?s = "\<lparr>n_downloaded = 2, n_skipped = 0, n_failed = 0, n_total = 2\<rparr>"
  let ?m = "main (fake_env all_ok) two_games fresh_world"
  let ?a = "main disk_full ten_games fresh_world"
  have l: "load_progress fresh_world = Inr ?e"
    by (simp add: load_progress_def fresh_world_def)
  have f: "fst ?m = Returned (Some ?s)" by code_simp
  have m: "?m = (fst ?m, snd ?m)" and a: "?a = (fst ?a, snd ?a)" by simp_all
  have t: "saves (trace fresh_world) = []" by (simp add: fresh_world_def)
  have x: "fst (run_loop disk_full ten_games ?e fresh_world) = Some (OSError ''disk full'')"
    by code_simp
  have 1: "length (saves (trace (snd ?m))) = 1"
    using final_save_after_completed_loop [of fresh_world ?e "fake_env all_ok" two_games "fst ?m" "snd ?m" ?s]
      l m f t by simp
  have 2: "fst ?a = Raised (OSError ''disk full'')"
    using final_save_after_completed_loop [of fresh_world ?e disk_full ten_games "fst ?a" "snd ?a" _
        "OSError ''disk full''"] l a x by simp
  show ?thesis using l f 1 x 2 by simp
qed

section \<open>Running twice\<close>

text \<open>
  Claim C1, as stated, fails for a run that resumes: when the first run already skips
  an item, the second run skips that item too, so its \<open>skipped\<close> (here 2) is more than
  the first run's \<open>downloaded\<close> (here 1).
\<close>

theorem idempotence_counterexample:
  "fst (main (fake_env all_ok) two_games resumed_world)
     = Returned (Some \<lparr>n_downloaded = 1, n_skipped = 1, n_failed = 0, n_total = 2\<rparr>) \<and>
   fst (main (fake_env all_ok) two_games (snd (main (fake_env all_ok) two_games resumed_world)))
     = Returned (Some \<lparr>n_downloaded = 0, n_skipped = 2, n_failed = 0, n_total = 2\<rparr>)"
  by code_simp

text \<open>
  Claim C1, amended. After a completed run in which no item failed, a second run on the
  same list, from the world the first run left, requests nothing and writes no image.
  It either completes, with \<open>downloaded = 0\<close>, \<open>failed = 0\<close> and \<open>skipped\<close> equal to the first
  run's \<open>downloaded\<close> plus the first run's \<open>skipped\<close> (every item of the list), or its
  final save raises.
\<close>

theorem second_run_downloads_nothing:
  "main env games w0 = (Returned (Some s1), w1) \<and> n_failed s1 = 0 \<and> main env2 games w1 = (r2, w2) \<longrightarrow>
     fetched (trace w2) = fetched (trace w1) \<and>
     files w2 = files w1 \<and>
     (r2 = Returned (Some \<lparr>n_downloaded = 0, n_skipped = n_downloaded s1 + n_skipped s1,
                            n_failed = 0, n_total = n_total s1\<rparr>)
      \<or> (\<exists>m. r2 = Raised (OSError m)) \<and> write_progress env2 (now w1) \<noteq> Written)"
proof (intro impI)
  assume "main env games w0 = (Returned (Some s1), w1) \<and> n_failed s1 = 0 \<and> main env2 games w1 = (r2, w2)"
  then have m1: "main env games w0 = (Returned (Some s1), w1)" and nf: "n_failed s1 = 0"
    and m2: "main env2 games w1 = (r2, w2)" by simp_all
  let ?all = "extract_games_from_page games"
  from m1 obtain p0 st1 w1' where
    ne: "?all \<noteq> []" and rl: "run_loop env games p0 w0 = (None, st1, w1')"
    and sp: "save_progress env (progress st1) w1' = Inr w1"
    and s1: "s1 = \<lparr>n_downloaded = downloaded_count st1, n_skipped = skipped_count st1,
             n_failed = failed_count st1, n_total = length ?all\<rparr>"
    by (cases rule: main_cases) auto
  have fc: "failed_count st1 = failed_count (initial_state p0)" using nf s1 by simp
  have "image_url ` snd ` set (enumerate 1 ?all) \<subseteq> set (downloaded p0) \<union> set (downloaded (progress st1))"
    using download_loop_no_failure [OF rl [unfolded run_loop_def] fc] .
  moreover have "set (downloaded p0) \<subseteq> set (downloaded (progress st1))"
    using run_loop_counts(2) [OF rl] by (auto simp: grows_def dest: set_mono_prefix)
  ultimately have sub: "image_url ` snd ` set (enumerate 1 ?all) \<subseteq> set (downloaded (progress st1))"
    by blast
  have cnt: "downloaded_count st1 + skipped_count st1 = length ?all"
    using run_loop_completed(4) [OF rl] fc by simp
  have pf: "progress_file w1 = Json (progress st1)"
    using save_progress_result(1) [OF sp] by simp
  then have l2: "load_progress w1 = Inr (progress st1)" by (rule load_progress_Json)
  have rl2: "run_loop env2 games (progress st1) w1
      = (None, (initial_state (progress st1))\<lparr>skipped_count := length ?all\<rparr>, w1)"
    unfolding run_loop_def using download_loop_all_skipped [OF sub] by simp
  from m2 show "fetched (trace w2) = fetched (trace w1) \<and>
     files w2 = files w1 \<and>
     (r2 = Returned (Some \<lparr>n_downloaded = 0, n_skipped = n_downloaded s1 + n_skipped s1,
                            n_failed = 0, n_total = n_total s1\<rparr>)
      \<or> (\<exists>m. r2 = Raised (OSError m)) \<and> write_progress env2 (now w1) \<noteq> Written)"
  proof (cases rule: main_cases)
    case load_error
    then show ?thesis using l2 by simp
  next
    case (no_games q0)
    then show ?thesis using ne by simp
  next
    case (loop_abort q0 e st2)
    then show ?thesis using l2 rl2 by simp
  next
    case (save_abort q0 e st2 w3)
    then have q: "q0 = progress st1" using l2 by simp
    have w3: "w3 = w1" using save_abort(3) rl2 by (simp add: q)
    note r = save_progress_result(2) [OF save_abort(4) [unfolded w3]]
    show ?thesis using r save_abort(5) by auto
  next
    case (complete q0 st2 w3)
    then have q: "q0 = progress st1" using l2 by simp
    have w3: "w3 = w1" and st2: "st2 = (initial_state (progress st1))\<lparr>skipped_count := length ?all\<rparr>"
      using complete(3) rl2 by (simp_all add: q)
    note r = save_progress_result(1) [OF complete(4) [unfolded w3]]
    show ?thesis using r complete(5) cnt by (simp add: st2 s1)
  qed
qed

theorem second_run_downloads_nothing_witness:
  "main (fake_env all_ok) two_games resumed_world
     = (Returned (Some \<lparr>n_downloaded = 1, n_skipped = 1, n_failed = 0, n_total = 2\<rparr>),
        snd (main (fake_env all_ok) two_games resumed_world)) \<and>
   write_progress (fake_env not_found) (now (snd (main (fake_env all_ok) two_games resumed_world))) = Written \<and>
   fst (main (fake_env not_found) two_games (snd (main (fake_env all_ok) two_games resumed_world)))
     = Returned (Some \<lparr>n_downloaded = 0, n_skipped = 2, n_failed = 0, n_total = 2\<rparr>)"
proof -
  let ?s = "\<lparr>n_downloaded = 1, n_skipped = 1, n_failed = 0, n_total = 2\<rparr>"
  let ?m = "main (fake_env all_ok) two_games resumed_world"
  let ?n = "main (fake_env not_found) two_games (snd ?m)"
  have f: "fst ?m = Returned (Some ?s)" by code_simp
  then have m: "?m = (Returned (Some ?s), snd ?m)" by (metis prod.collapse)
  have n: "?n = (fst ?n, snd ?n)" by simp
  have w: "write_progress (fake_env not_found) (now (snd ?m)) = Written"
    by (simp add: fake_env_def)
  have "fst ?n = Returned (Some \<lparr>n_downloaded = 0, n_skipped = 2, n_failed = 0, n_total = 2\<rparr>)"
    using second_run_downloads_nothing [of "fake_env all_ok" two_games resumed_world ?s "snd ?m"
        "fake_env not_found" "fst ?n" "snd ?n"] m n w
    by simp
  then show ?thesis using m w by simp
qed

end
